theory Spec2Isabelle
  imports Main
begin

section \<open>Regular expressions of the Twitch provider\<close>

text \<open>
  The two patterns of the source are written without flags, so they are matched by
  JavaScript's backtracking matcher on code units, case-sensitively, with \<open>\w\<close>
  standing for \<open>[A-Za-z0-9_]\<close>, \<open>\d\<close> for \<open>[0-9]\<close> and \<open>$\<close> for the end of the
  input. A \<^typ>\<open>char\<close> stands for one code unit: the patterns tell apart ASCII
  characters only, and every other code unit is neither a word character nor a digit
  nor equal to a character of a literal.

  The syntax tree has the constructs the two patterns use: a literal, alternation,
  sequence, the optional \<open>r?\<close>, the greedy \<open>c+\<close> of a character class, the negative
  lookahead \<open>(?!r)\<close>, the capture group (both patterns have exactly one) and \<open>$\<close>.
\<close>

datatype cclass = Word | Digit

datatype re =
    Lit string
  | Alt re re
  | Seq re re
  | Opt re
  | PlusC cclass
  | NegLook re
  | Group re
  | Eol

definition is_digit :: "char \<Rightarrow> bool" where
  "is_digit c = (c \<in> set ''0123456789'')"

definition is_word :: "char \<Rightarrow> bool" where
  "is_word c =
     (c \<in> set ''abcdefghijklmnopqrstuvwxyzABCDEFGHIJKLMNOPQRSTUVWXYZ0123456789_'')"

fun in_class :: "cclass \<Rightarrow> char \<Rightarrow> bool" where
  "in_class Word c = is_word c"
| "in_class Digit c = is_digit c"

text \<open>\<open>strip_prefix l s\<close> is what is left of \<open>s\<close> after the literal \<open>l\<close>, if \<open>s\<close> starts with it.\<close>

fun strip_prefix :: "string \<Rightarrow> string \<Rightarrow> string option" where
  "strip_prefix [] s = Some s"
| "strip_prefix (a # l) [] = None"
| "strip_prefix (a # l) (c # s) = (if a = c then strip_prefix l s else None)"

text \<open>
  The greedy repetitions of a character class, as the inputs left after each way of
  matching, the longest match first: that is the order in which backtracking tries them.
\<close>

fun class_star :: "cclass \<Rightarrow> string \<Rightarrow> string list" where
  "class_star k [] = [[]]"
| "class_star k (c # s) = (if in_class k c then class_star k s @ [c # s] else [c # s])"

fun class_plus :: "cclass \<Rightarrow> string \<Rightarrow> string list" where
  "class_plus k [] = []"
| "class_plus k (c # s) = (if in_class k c then class_star k s else [])"

text \<open>
  A matcher state is the input still to be read and the text of capture group 1
  (\<open>None\<close> while the group has not taken part: JavaScript's \<open>undefined\<close>).
  \<open>ms r st\<close> lists the states after every way of matching \<open>r\<close> from \<open>st\<close>, in the
  order backtracking tries them; the empty list is failure.
\<close>

type_synonym mstate = "string \<times> string option"

primrec ms :: "re \<Rightarrow> mstate \<Rightarrow> mstate list" where
  "ms (Lit l) st =
     (case strip_prefix l (fst st) of None \<Rightarrow> [] | Some s' \<Rightarrow> [(s', snd st)])"
| "ms (Alt a b) st = ms a st @ ms b st"
| "ms (Seq a b) st = concat (map (ms b) (ms a st))"
| "ms (Opt a) st = ms a st @ [st]"
| "ms (PlusC k) st = map (\<lambda>s'. (s', snd st)) (class_plus k (fst st))"
| "ms (NegLook a) st = (if ms a st = [] then [st] else [])"
| "ms (Group a) st =
     map (\<lambda>st'. (fst st', Some (take (length (fst st) - length (fst st')) (fst st))))
       (ms a st)"
| "ms Eol st = (if fst st = [] then [st] else [])"

text \<open>
  \<open>src.match(re)\<close> for a pattern without the global flag: the first way of matching at
  the leftmost start position that has one, tried from index 0 up to the end of the
  input. The result is \<open>None\<close> for JavaScript's \<open>null\<close> and otherwise element \<open>[1]\<close> of
  the match array, the only element the source reads.
\<close>

fun re_match :: "re \<Rightarrow> string \<Rightarrow> string option option" where
  "re_match r [] = (case ms r ([], None) of [] \<Rightarrow> None | st # _ \<Rightarrow> Some (snd st))"
| "re_match r (c # s) =
     (case ms r (c # s, None) of [] \<Rightarrow> re_match r s | st # _ \<Rightarrow> Some (snd st))"

text \<open>
  \<^verbatim>\<open>/(?:twitch\.tv\/|player\.twitch\.tv\/\?channel=|twitch\/)(?!videos?)(\w+)$/\<close>
\<close>

definition channelNameRE :: re where
  "channelNameRE =
     Seq (Alt (Lit ''twitch.tv/'') (Alt (Lit ''player.twitch.tv/?channel='') (Lit ''twitch/'')))
       (Seq (NegLook (Seq (Lit ''video'') (Opt (Lit ''s''))))
         (Seq (Group (PlusC Word)) Eol))"

text \<open>
  \<^verbatim>\<open>/(?:twitch\.tv\/videos\/|player\.twitch\.tv\/\?video=|twitch\/video\/)(\d+)/\<close>
\<close>

definition videoIdRE :: re where
  "videoIdRE =
     Seq (Alt (Lit ''twitch.tv/videos/'') (Alt (Lit ''player.twitch.tv/?video='') (Lit ''twitch/video/'')))
       (Group (PlusC Digit))"

section \<open>Resolving a source string\<close>

record twitch_source =
  channel :: "string option"
  videoId :: "string option"

definition resolveTwitchSource :: "string \<Rightarrow> twitch_source" where
  "resolveTwitchSource src =
     (case re_match videoIdRE src of
        Some videoIdMatch \<Rightarrow> \<lparr>channel = None, videoId = videoIdMatch\<rparr>
      | None \<Rightarrow>
          (case re_match channelNameRE src of
             Some channelMatch \<Rightarrow> \<lparr>channel = channelMatch, videoId = None\<rparr>
           | None \<Rightarrow> \<lparr>channel = None, videoId = None\<rparr>))"

section \<open>Quality adapter\<close>

text \<open>
  The declarations of \<open>TwitchQuality\<close> and \<open>VideoQuality\<close> are outside the sources at
  hand. The records have the fields that \<open>twitchQualityToVideoQuality\<close> reads and
  writes; the fields are prefixed (\<open>tq_\<close>, \<open>vq_\<close>) because both objects have a
  \<open>width\<close>, a \<open>height\<close> and a \<open>bitrate\<close>. The function copies the numbers and the codec
  without looking at them, so their types are parameters. The optional parameter
  \<open>activeQuality\<close> is an option, \<open>None\<close> for \<open>undefined\<close>.
\<close>

record ('n, 'c) TwitchQuality =
  tq_name :: string
  tq_width :: 'n
  tq_height :: 'n
  tq_bitrate :: 'n
  tq_codecs :: 'c

record ('n, 'c) VideoQuality =
  vq_id :: string
  vq_width :: 'n
  vq_height :: 'n
  vq_bitrate :: 'n
  vq_codec :: 'c
  vq_selected :: bool

definition twitchQualityToVideoQuality ::
  "('n, 'c) TwitchQuality \<Rightarrow> string option \<Rightarrow> ('n, 'c) VideoQuality" where
  "twitchQualityToVideoQuality quality activeQuality =
     \<lparr>vq_id = tq_name quality,
      vq_width = tq_width quality,
      vq_height = tq_height quality,
      vq_bitrate = tq_bitrate quality,
      vq_codec = tq_codecs quality,
      vq_selected = (activeQuality = Some (tq_name quality))\<rparr>"

section \<open>Poster lookup\<close>

text \<open>
  \<open>findTwitchPoster\<close> is asynchronous: between two \<open>await\<close>s its body runs without
  interruption, and at an \<open>await\<close> any other call or continuation may run. The model
  is a transition system over the two module-level maps and the promises created so
  far. Its events are a call of \<open>findTwitchPoster\<close>, the settling of the \<open>fetch\<close> a
  probe sequence awaits, the reaction of the \<open>.catch(...).finally(...)\<close> chain to the
  resolution of the promise it hangs on, up to and with the \<open>.finally\<close> callback, and the
  settling of the promise that \<open>.finally\<close> returned, which comes some jobs after the
  callback. Calls and continuations may run between any two events.

  A \<open>fetch\<close> either yields a response with a status or rejects (a network error, or an
  abort through the signal); the status is all the source reads of a response.
\<close>

datatype outcome = Response nat | NetworkError | AbortError

datatype settlement = Fulfilled string | Rejected

text \<open>
  The phases of the promise \<open>pending\<close> of one call, the promise that \<open>.finally\<close> returns
  and \<open>pendingFetch\<close> stores: its executor awaits the \<open>fetch\<close> for one size, with the sizes
  after it still to try; the executor has called \<open>resolve\<close>, and the reactions of the chain
  have not run yet; the \<open>.finally\<close> callback has run, and \<open>pending\<close> is not settled yet,
  which takes further jobs of the promise machinery; \<open>pending\<close> is settled.
\<close>

datatype phase =
    Probing "nat \<times> nat" "(nat \<times> nat) list"
  | Resolved settlement
  | Finalized settlement
  | Settled settlement

text \<open>The variables the executor closes over; the abort controller is known by a number.\<close>

record probe =
  p_src :: string
  p_isChannel :: bool
  p_abort :: nat

text \<open>
  Besides the two maps and the promises, the state records what went over the network:
  every \<open>fetch\<close> issued, with the controller whose signal it was given, and every
  outcome delivered, with the URL it answers.
\<close>

record state =
  posterCache :: "string \<rightharpoonup> string"
  pendingFetch :: "string \<rightharpoonup> nat"
  promises :: "nat \<rightharpoonup> probe \<times> phase"
  fetched :: "(string \<times> nat) list"
  replies :: "(string \<times> outcome) list"
  nextId :: nat

datatype ret = Value string | Pending nat

text \<open>A number in a template literal: its decimal digits.\<close>

definition digit_char :: "nat \<Rightarrow> char" where
  "digit_char d = ''0123456789'' ! d"

fun dec :: "nat \<Rightarrow> string" where
  "dec n = (if n < 10 then [digit_char n] else dec (n div 10) @ [digit_char (n mod 10)])"

declare dec.simps [simp del]

definition cacheKey :: "string \<Rightarrow> bool \<Rightarrow> string" where
  "cacheKey src isChannel = (if isChannel then ''channel'' else ''video'') @ ''-'' @ src"

text \<open>The size list is written out twice in the source, once in each branch.\<close>

definition channel_sizes :: "(nat \<times> nat) list" where
  "channel_sizes = [(1920, 1080), (1280, 720), (640, 360)]"

definition video_sizes :: "(nat \<times> nat) list" where
  "video_sizes = [(1920, 1080), (1280, 720), (640, 360)]"

fun live_url :: "string \<Rightarrow> nat \<times> nat \<Rightarrow> string" where
  "live_url src (width, height) =
     ''https://static-cdn.jtvnw.net/previews-ttv/live_user_'' @ src @ ''-'' @ dec width @ ''x''
       @ dec height @ ''.jpg''"

fun vod_url :: "string \<Rightarrow> nat \<times> nat \<Rightarrow> string" where
  "vod_url src (width, height) =
     ''https://static-cdn.jtvnw.net/cf_vods/'' @ src @ ''/thumb/thumb0-'' @ dec width @ ''x''
       @ dec height @ ''.jpg''"

definition probe_url :: "probe \<Rightarrow> nat \<times> nat \<Rightarrow> string" where
  "probe_url pr sz = (if p_isChannel pr then live_url (p_src pr) sz else vod_url (p_src pr) sz)"

text \<open>\<open>resolve(v)\<close> in the executor of promise \<open>p\<close>.\<close>

definition resolve :: "nat \<Rightarrow> probe \<Rightarrow> string \<Rightarrow> state \<Rightarrow> state" where
  "resolve p pr v s = s\<lparr>promises := (promises s)(p \<mapsto> (pr, Resolved (Fulfilled v)))\<rparr>"

text \<open>
  The head of the \<open>for\<close> loop with the sizes still to try: with none left the loop is
  over and the executor reaches \<open>resolve('')\<close>; otherwise it issues the \<open>fetch\<close> for the
  next size and awaits it.
\<close>

fun probe_loop :: "nat \<Rightarrow> probe \<Rightarrow> (nat \<times> nat) list \<Rightarrow> state \<Rightarrow> state" where
  "probe_loop p pr [] s = resolve p pr [] s"
| "probe_loop p pr (sz # rest) s =
     s\<lparr>fetched := fetched s @ [(probe_url pr sz, p_abort pr)],
       promises := (promises s)(p \<mapsto> (pr, Probing sz rest))\<rparr>"

text \<open>
  The body of \<open>findTwitchPoster\<close> up to its \<open>return\<close>: the cached URL, the promise
  already pending for the key, or a new promise, whose executor runs at once up to its
  first \<open>await\<close>.
\<close>

definition findTwitchPoster :: "string \<Rightarrow> bool \<Rightarrow> nat \<Rightarrow> state \<Rightarrow> ret \<times> state" where
  "findTwitchPoster src isChannel abort s =
     (let key = cacheKey src isChannel in
      case posterCache s key of
        Some url \<Rightarrow> (Value url, s)
      | None \<Rightarrow>
          (case pendingFetch s key of
             Some p \<Rightarrow> (Pending p, s)
           | None \<Rightarrow>
               (let p = nextId s;
                    pr = \<lparr>p_src = src, p_isChannel = isChannel, p_abort = abort\<rparr>;
                    s1 = probe_loop p pr (if isChannel then channel_sizes else video_sizes)
                           (s\<lparr>nextId := Suc p\<rparr>)
                in (Pending p, s1\<lparr>pendingFetch := (pendingFetch s1)(key \<mapsto> p)\<rparr>))))"

text \<open>
  The \<open>fetch\<close> that promise \<open>p\<close> awaits settles with \<open>out\<close>, and the executor runs on to
  its next \<open>await\<close> or to its end: a status below 400 stores the URL and resolves with it,
  any other status goes round the loop, and a rejection is caught and resolves with the
  empty string. Nothing happens when \<open>p\<close> awaits no \<open>fetch\<close>.
\<close>

definition respond :: "nat \<Rightarrow> outcome \<Rightarrow> state \<Rightarrow> state" where
  "respond p out s =
     (case promises s p of
        Some (pr, Probing sz rest) \<Rightarrow>
          (let url = probe_url pr sz;
               s1 = s\<lparr>replies := replies s @ [(url, out)]\<rparr>
           in case out of
                Response status \<Rightarrow>
                  if status < 400
                  then resolve p pr url
                         (s1\<lparr>posterCache :=
                               (posterCache s1)(cacheKey (p_src pr) (p_isChannel pr) \<mapsto> url)\<rparr>)
                  else probe_loop p pr rest s1
              | NetworkError \<Rightarrow> resolve p pr [] s1
              | AbortError \<Rightarrow> resolve p pr [] s1)
      | _ \<Rightarrow> s)"

text \<open>\<open>.catch(() => '')\<close>: a rejection becomes the empty string, a value passes.\<close>

fun on_catch :: "settlement \<Rightarrow> settlement" where
  "on_catch Rejected = Fulfilled []"
| "on_catch (Fulfilled v) = Fulfilled v"

text \<open>
  The reactions of the chain to the resolution of promise \<open>p\<close>: the \<open>.catch\<close> handler,
  which touches neither map, then the \<open>.finally\<close> callback, which deletes the key. The
  promise \<open>pending\<close> is not settled by that: it will be settled with what the \<open>.catch\<close>
  step produced.
\<close>

definition finalize :: "nat \<Rightarrow> state \<Rightarrow> state" where
  "finalize p s =
     (case promises s p of
        Some (pr, Resolved r) \<Rightarrow>
          s\<lparr>pendingFetch := (pendingFetch s)(cacheKey (p_src pr) (p_isChannel pr) := None),
            promises := (promises s)(p \<mapsto> (pr, Finalized (on_catch r)))\<rparr>
      | _ \<Rightarrow> s)"

text \<open>The promise \<open>pending\<close> of a call settles, after its \<open>.finally\<close> callback has run.\<close>

definition settle :: "nat \<Rightarrow> state \<Rightarrow> state" where
  "settle p s =
     (case promises s p of
        Some (pr, Finalized r) \<Rightarrow> s\<lparr>promises := (promises s)(p \<mapsto> (pr, Settled r))\<rparr>
      | _ \<Rightarrow> s)"

datatype event = Call string bool nat | Respond nat outcome | Finalize nat | Settle nat

fun step :: "state \<Rightarrow> event \<Rightarrow> state" where
  "step s (Call src isChannel abort) = snd (findTwitchPoster src isChannel abort s)"
| "step s (Respond p out) = respond p out s"
| "step s (Finalize p) = finalize p s"
| "step s (Settle p) = settle p s"

definition run :: "event list \<Rightarrow> state \<Rightarrow> state" where
  "run es s = foldl step s es"

text \<open>The module has just been loaded: both maps are empty and no promise exists.\<close>

definition init :: state where
  "init = \<lparr>posterCache = Map.empty, pendingFetch = Map.empty, promises = Map.empty,
           fetched = [], replies = [], nextId = 0\<rparr>"

text \<open>A run that hands one promise the outcomes of its fetches, one after the other.\<close>

definition responses :: "nat \<Rightarrow> outcome list \<Rightarrow> state \<Rightarrow> state" where
  "responses p outs s = run (map (Respond p) outs) s"

subsection \<open>The invariant of the reachable states\<close>

definition key_of :: "probe \<Rightarrow> string" where
  "key_of pr = cacheKey (p_src pr) (p_isChannel pr)"

fun settled :: "phase \<Rightarrow> bool" where
  "settled (Settled r) = True"
| "settled ph = False"

fun probing :: "phase \<Rightarrow> bool" where
  "probing (Probing sz rest) = True"
| "probing ph = False"

text \<open>The phases before the \<open>.finally\<close> callback.\<close>

fun registered :: "phase \<Rightarrow> bool" where
  "registered (Probing sz rest) = True"
| "registered (Resolved r) = True"
| "registered ph = False"

text \<open>Promise numbers are below the counter.\<close>

definition ids_bounded :: "state \<Rightarrow> bool" where
  "ids_bounded s \<longleftrightarrow> (\<forall>p pr ph. promises s p = Some (pr, ph) \<longrightarrow> p < nextId s)"

text \<open>
  \<open>pendingFetch\<close> holds exactly the promises whose \<open>.finally\<close> callback has not run, each
  under its own key.
\<close>

definition pending_unsettled :: "state \<Rightarrow> bool" where
  "pending_unsettled s \<longleftrightarrow>
     (\<forall>k p. pendingFetch s k = Some p \<longrightarrow>
        (\<exists>pr ph. promises s p = Some (pr, ph) \<and> key_of pr = k \<and> registered ph))"

definition unsettled_pending :: "state \<Rightarrow> bool" where
  "unsettled_pending s \<longleftrightarrow>
     (\<forall>p pr ph. promises s p = Some (pr, ph) \<longrightarrow> registered ph \<longrightarrow>
        pendingFetch s (key_of pr) = Some p)"

text \<open>A key being probed, or whose probes have all failed, is not cached.\<close>

definition probing_uncached :: "state \<Rightarrow> bool" where
  "probing_uncached s \<longleftrightarrow>
     (\<forall>p pr ph. promises s p = Some (pr, ph) \<longrightarrow> probing ph \<or> ph = Resolved (Fulfilled []) \<longrightarrow>
        posterCache s (key_of pr) = None)"

text \<open>A promise resolved with a URL has that URL cached under its key.\<close>

definition resolved_cached :: "state \<Rightarrow> bool" where
  "resolved_cached s \<longleftrightarrow>
     (\<forall>p pr ph v. promises s p = Some (pr, ph) \<longrightarrow> v \<noteq> [] \<longrightarrow>
        ph = Resolved (Fulfilled v) \<or> ph = Finalized (Fulfilled v) \<or> ph = Settled (Fulfilled v) \<longrightarrow>
        posterCache s (key_of pr) = Some v)"

text \<open>No promise is rejected.\<close>

definition none_rejected :: "state \<Rightarrow> bool" where
  "none_rejected s \<longleftrightarrow>
     (\<forall>p pr ph. promises s p = Some (pr, ph) \<longrightarrow>
        ph \<noteq> Resolved Rejected \<and> ph \<noteq> Finalized Rejected \<and> ph \<noteq> Settled Rejected)"

text \<open>Every cached value is a non-empty URL that was answered with a status below 400.\<close>

definition cache_successes :: "state \<Rightarrow> bool" where
  "cache_successes s \<longleftrightarrow>
     (\<forall>k u. posterCache s k = Some u \<longrightarrow>
        u \<noteq> [] \<and> (\<exists>status < 400. (u, Response status) \<in> set (replies s)))"

definition wf_state :: "state \<Rightarrow> bool" where
  "wf_state s \<longleftrightarrow>
     ids_bounded s \<and> pending_unsettled s \<and> unsettled_pending s \<and> probing_uncached s
     \<and> resolved_cached s \<and> none_rejected s \<and> cache_successes s"

section \<open>Properties of the patterns\<close>

lemma strip_prefix_Some_iff: "strip_prefix l s = Some r \<longleftrightarrow> s = l @ r"
  by (induction l s rule: strip_prefix.induct) auto

lemma strip_prefix_None_iff: "strip_prefix l s = None \<longleftrightarrow> take (length l) s \<noteq> l"
  by (induction l s rule: strip_prefix.induct) auto

lemma strip_prefix_class:
  assumes "list_all (in_class k) s" and "\<not> list_all (in_class k) l"
  shows "strip_prefix l s = None"
proof (cases "strip_prefix l s")
  case None
  then show ?thesis .
next
  case (Some r)
  then have "s = l @ r" by (simp add: strip_prefix_Some_iff)
  with assms show ?thesis by simp
qed

lemma class_star_first: "list_all (in_class k) s \<Longrightarrow> \<exists>rest. class_star k s = [] # rest"
  by (induction s) auto

lemma class_plus_first:
  "s \<noteq> [] \<Longrightarrow> list_all (in_class k) s \<Longrightarrow> \<exists>rest. class_plus k s = [] # rest"
  by (cases s) (auto simp: class_star_first)

lemma not_word_lits:
  "\<not> list_all (in_class Word) ''twitch.tv/videos/''"
  "\<not> list_all (in_class Word) ''player.twitch.tv/?video=''"
  "\<not> list_all (in_class Word) ''twitch/video/''"
  "\<not> list_all (in_class Word) ''videos/''"
  "\<not> list_all (in_class Word) ''video/''"
  by (simp_all add: is_word_def)

lemma word_strip:
  assumes "list_all (in_class Word) s"
  shows "strip_prefix ''twitch.tv/videos/'' s = None"
    and "strip_prefix ''player.twitch.tv/?video='' s = None"
    and "strip_prefix ''twitch/video/'' s = None"
    and "strip_prefix ''videos/'' s = None"
    and "strip_prefix ''video/'' s = None"
  using assms not_word_lits by (blast intro: strip_prefix_class)+

lemma videoIdRE_word_ms: "list_all (in_class Word) s \<Longrightarrow> ms videoIdRE (s, cap) = []"
  by (simp add: videoIdRE_def word_strip)

lemma videoIdRE_word: "list_all (in_class Word) s \<Longrightarrow> re_match videoIdRE s = None"
  by (induction s) (simp_all add: videoIdRE_word_ms)

lemma re_match_Some:
  "re_match r s = Some v \<Longrightarrow> \<exists>st x. x \<in> set (ms r st) \<and> snd x = v"
proof (induction s)
  case Nil
  show ?case
  proof (cases "ms r ([], None)")
    case Nil
    with Nil.prems show ?thesis by simp
  next
    case (Cons x xs)
    with Nil.prems have "snd x = v" by simp
    moreover from Cons have "x \<in> set (ms r ([], None))" by simp
    ultimately show ?thesis by blast
  qed
next
  case (Cons c s)
  show ?case
  proof (cases "ms r (c # s, None)")
    case Nil
    with Cons show ?thesis by simp
  next
    case (Cons x xs)
    with Cons.prems have "snd x = v" by simp
    moreover from Cons have "x \<in> set (ms r (c # s, None))" by simp
    ultimately show ?thesis by blast
  qed
qed

lemma ms_Group_captures: "x \<in> set (ms (Group a) st) \<Longrightarrow> snd x \<noteq> None"
  by auto

lemma ms_videoIdRE_captures: "x \<in> set (ms videoIdRE st) \<Longrightarrow> snd x \<noteq> None"
  unfolding videoIdRE_def ms.simps(3) using ms_Group_captures by fastforce

lemma ms_Group_Eol_captures: "x \<in> set (ms (Seq (Group a) Eol) st) \<Longrightarrow> snd x \<noteq> None"
  by (auto split: if_splits)

lemma ms_Seq_elem: "x \<in> set (ms (Seq a b) st) \<Longrightarrow> \<exists>st'. x \<in> set (ms b st')"
  by auto

lemma ms_channelNameRE_captures: "x \<in> set (ms channelNameRE st) \<Longrightarrow> snd x \<noteq> None"
  unfolding channelNameRE_def
  by (blast dest: ms_Seq_elem ms_Group_Eol_captures)

lemma videoIdRE_match_defined: "re_match videoIdRE s = Some v \<Longrightarrow> \<exists>d. v = Some d"
  using re_match_Some ms_videoIdRE_captures by fastforce

lemma channelNameRE_match_defined: "re_match channelNameRE s = Some v \<Longrightarrow> \<exists>n. v = Some n"
  using re_match_Some ms_channelNameRE_captures by fastforce

lemma strip_video: "take 5 n \<noteq> ''video'' \<Longrightarrow> strip_prefix ''video'' n = None"
proof -
  assume a: "take 5 n \<noteq> ''video''"
  have "length ''video'' = 5" by simp
  with a show ?thesis unfolding strip_prefix_None_iff by presburger
qed

lemma channel_shapes:
  assumes "n \<noteq> []" "list_all (in_class Word) n" "take 5 n \<noteq> ''video''"
  shows "re_match channelNameRE (''https://www.twitch.tv/'' @ n) = Some (Some n)"
    and "re_match channelNameRE (''https://player.twitch.tv/?channel='' @ n) = Some (Some n)"
    and "re_match channelNameRE (''twitch/'' @ n) = Some (Some n)"
proof -
  obtain rest where "class_plus Word n = [] # rest"
    using class_plus_first [OF assms(1,2)] by blast
  moreover note strip_video [OF assms(3)]
  ultimately show "re_match channelNameRE (''https://www.twitch.tv/'' @ n) = Some (Some n)"
    and "re_match channelNameRE (''https://player.twitch.tv/?channel='' @ n) = Some (Some n)"
    and "re_match channelNameRE (''twitch/'' @ n) = Some (Some n)"
    by (simp_all add: channelNameRE_def)
qed

lemma channel_shapes_no_video:
  assumes "list_all (in_class Word) n"
  shows "re_match videoIdRE (''https://www.twitch.tv/'' @ n) = None"
    and "re_match videoIdRE (''https://player.twitch.tv/?channel='' @ n) = None"
    and "re_match videoIdRE (''twitch/'' @ n) = None"
  using assms videoIdRE_word_ms [OF assms] videoIdRE_word [OF assms, unfolded videoIdRE_def]
  by (simp_all add: videoIdRE_def word_strip)

lemma video_shapes:
  assumes "d \<noteq> []" "list_all (in_class Digit) d"
  shows "re_match videoIdRE (''https://www.twitch.tv/videos/'' @ d) = Some (Some d)"
    and "re_match videoIdRE (''https://player.twitch.tv/?video='' @ d) = Some (Some d)"
    and "re_match videoIdRE (''twitch/video/'' @ d) = Some (Some d)"
proof -
  obtain rest where "class_plus Digit d = [] # rest"
    using class_plus_first [OF assms] by blast
  then show "re_match videoIdRE (''https://www.twitch.tv/videos/'' @ d) = Some (Some d)"
    and "re_match videoIdRE (''https://player.twitch.tv/?video='' @ d) = Some (Some d)"
    and "re_match videoIdRE (''twitch/video/'' @ d) = Some (Some d)"
    by (simp_all add: videoIdRE_def)
qed

lemma videos_bare:
  "re_match videoIdRE ''https://www.twitch.tv/videos'' = None"
  "re_match channelNameRE ''https://www.twitch.tv/videos'' = None"
  by (simp_all add: videoIdRE_def channelNameRE_def)

lemma video_bare:
  "re_match videoIdRE ''https://www.twitch.tv/video'' = None"
  "re_match channelNameRE ''https://www.twitch.tv/video'' = None"
  "re_match videoIdRE ''https://www.twitch.tv/'' = None"
  "re_match channelNameRE ''https://www.twitch.tv/'' = None"
  by (simp_all add: videoIdRE_def channelNameRE_def)

lemma videogames_no_match:
  "re_match videoIdRE ''https://www.twitch.tv/videogames'' = None"
  "re_match channelNameRE ''https://www.twitch.tv/videogames'' = None"
  "re_match videoIdRE ''https://player.twitch.tv/?channel=videogames'' = None"
  "re_match channelNameRE ''https://player.twitch.tv/?channel=videogames'' = None"
  "re_match videoIdRE ''twitch/videogames'' = None"
  "re_match channelNameRE ''twitch/videogames'' = None"
  by (simp_all add: videoIdRE_def channelNameRE_def is_word_def)

section \<open>Properties of \<open>resolveTwitchSource\<close>\<close>

text \<open>
  C5. For every input, \<open>resolveTwitchSource\<close> returns at most one identifier: when the
  video pattern matches, the result has the video id only, whatever the channel pattern
  does; when it does not and the channel pattern matches, the result has the channel
  only; when neither matches, the result has neither. A result never has both.
\<close>

theorem resolveTwitchSource_at_most_one:
  "(\<forall>v. re_match videoIdRE src = Some v \<longrightarrow>
      (\<exists>d. v = Some d \<and> resolveTwitchSource src = \<lparr>channel = None, videoId = Some d\<rparr>))
   \<and> (re_match videoIdRE src = None \<longrightarrow>
        (\<forall>c. re_match channelNameRE src = Some c \<longrightarrow>
           (\<exists>n. c = Some n \<and> resolveTwitchSource src = \<lparr>channel = Some n, videoId = None\<rparr>)))
   \<and> (re_match videoIdRE src = None \<and> re_match channelNameRE src = None \<longrightarrow>
        resolveTwitchSource src = \<lparr>channel = None, videoId = None\<rparr>)
   \<and> \<not> (channel (resolveTwitchSource src) \<noteq> None \<and> videoId (resolveTwitchSource src) \<noteq> None)"
proof -
  have video: "\<exists>d. v = Some d \<and> resolveTwitchSource src = \<lparr>channel = None, videoId = Some d\<rparr>"
    if "re_match videoIdRE src = Some v" for v
    using that videoIdRE_match_defined [OF that] by (auto simp: resolveTwitchSource_def)
  have chan: "\<exists>n. c = Some n \<and> resolveTwitchSource src = \<lparr>channel = Some n, videoId = None\<rparr>"
    if "re_match videoIdRE src = None" "re_match channelNameRE src = Some c" for c
    using that channelNameRE_match_defined [OF that(2)] by (auto simp: resolveTwitchSource_def)
  have neither: "resolveTwitchSource src = \<lparr>channel = None, videoId = None\<rparr>"
    if "re_match videoIdRE src = None" "re_match channelNameRE src = None"
    using that by (simp add: resolveTwitchSource_def)
  have "\<not> (channel (resolveTwitchSource src) \<noteq> None \<and> videoId (resolveTwitchSource src) \<noteq> None)"
    by (simp add: resolveTwitchSource_def split: option.splits)
  with video chan neither show ?thesis by blast
qed


text \<open>
  An input that both patterns match (the video id wins), one that only the channel
  pattern matches, and one that neither matches.
\<close>

theorem resolveTwitchSource_at_most_one_witness:
  "re_match videoIdRE ''twitch.tv/videos/1?x=twitch/abc'' = Some (Some ''1'')
   \<and> re_match channelNameRE ''twitch.tv/videos/1?x=twitch/abc'' = Some (Some ''abc'')
   \<and> resolveTwitchSource ''twitch.tv/videos/1?x=twitch/abc'' = \<lparr>channel = None, videoId = Some ''1''\<rparr>
   \<and> re_match videoIdRE ''twitch/example'' = None
   \<and> re_match channelNameRE ''twitch/example'' = Some (Some ''example'')
   \<and> resolveTwitchSource ''twitch/example'' = \<lparr>channel = Some ''example'', videoId = None\<rparr>
   \<and> re_match videoIdRE ''example.com'' = None
   \<and> re_match channelNameRE ''example.com'' = None
   \<and> resolveTwitchSource ''example.com'' = \<lparr>channel = None, videoId = None\<rparr>"
proof -
  have v1: "re_match videoIdRE ''twitch.tv/videos/1?x=twitch/abc'' = Some (Some ''1'')"
    by (simp add: videoIdRE_def is_digit_def)
  have c1: "re_match channelNameRE ''twitch.tv/videos/1?x=twitch/abc'' = Some (Some ''abc'')"
    by (simp add: channelNameRE_def is_word_def)
  have v2: "re_match videoIdRE ''twitch/example'' = None"
    by (simp add: videoIdRE_def)
  have c2: "re_match channelNameRE ''twitch/example'' = Some (Some ''example'')"
    by (simp add: channelNameRE_def is_word_def)
  have v3: "re_match videoIdRE ''example.com'' = None"
    by (simp add: videoIdRE_def)
  have c3: "re_match channelNameRE ''example.com'' = None"
    by (simp add: channelNameRE_def)
  have r1: "resolveTwitchSource ''twitch.tv/videos/1?x=twitch/abc'' = \<lparr>channel = None, videoId = Some ''1''\<rparr>"
    using resolveTwitchSource_at_most_one [of "''twitch.tv/videos/1?x=twitch/abc''"] v1
    by (metis option.inject)
  have r2: "resolveTwitchSource ''twitch/example'' = \<lparr>channel = Some ''example'', videoId = None\<rparr>"
    using resolveTwitchSource_at_most_one [of "''twitch/example''"] v2 c2
    by (metis option.inject)
  have r3: "resolveTwitchSource ''example.com'' = \<lparr>channel = None, videoId = None\<rparr>"
    using resolveTwitchSource_at_most_one [of "''example.com''"] v3 c3
    by blast
  from v1 c1 r1 v2 c2 r2 v3 c3 r3 show ?thesis by blast
qed

text \<open>
  The three channel shapes. For every non-empty name \<open>n\<close> of word characters that does not
  begin with \<open>video\<close>, \<open>resolveTwitchSource\<close> returns the channel \<open>n\<close> and no video id for
  each of \<open>https://www.twitch.tv/n\<close>, \<open>https://player.twitch.tv/?channel=n\<close> and \<open>twitch/n\<close>.
\<close>

theorem resolveTwitchSource_channel_shapes:
  assumes "n \<noteq> []" and "list_all is_word n" and "take 5 n \<noteq> ''video''"
  shows "resolveTwitchSource (''https://www.twitch.tv/'' @ n) = \<lparr>channel = Some n, videoId = None\<rparr>
    \<and> resolveTwitchSource (''https://player.twitch.tv/?channel='' @ n)
        = \<lparr>channel = Some n, videoId = None\<rparr>
    \<and> resolveTwitchSource (''twitch/'' @ n) = \<lparr>channel = Some n, videoId = None\<rparr>"
proof -
  from assms(2) have w: "list_all (in_class Word) n"
    by (simp add: list_all_iff)
  show ?thesis
    unfolding resolveTwitchSource_def
    by (simp only: channel_shapes [OF assms(1) w assms(3)] channel_shapes_no_video [OF w]
        option.case simp_thms)
qed

text \<open>The three shapes at the name \<open>example\<close> of the source's comment.\<close>

theorem resolveTwitchSource_channel_shapes_witness:
  "resolveTwitchSource ''https://www.twitch.tv/example'' = \<lparr>channel = Some ''example'', videoId = None\<rparr>
   \<and> resolveTwitchSource ''https://player.twitch.tv/?channel=example''
       = \<lparr>channel = Some ''example'', videoId = None\<rparr>
   \<and> resolveTwitchSource ''twitch/example'' = \<lparr>channel = Some ''example'', videoId = None\<rparr>"
proof -
  have "''example'' \<noteq> []" and "list_all is_word ''example''" and "take 5 ''example'' \<noteq> ''video''"
    by (simp_all add: is_word_def)
  from resolveTwitchSource_channel_shapes [OF this] show ?thesis by simp
qed

text \<open>
  The channel named \<open>video\<close> is excluded by the lookahead \<open>(?!videos?)\<close>, as the comment on
  the pattern says it is, and \<open>\w+\<close> needs at least one character.
\<close>

theorem resolveTwitchSource_channel_excluded:
  "list_all is_word ''video''
   \<and> resolveTwitchSource (''https://www.twitch.tv/'' @ ''video'') \<noteq> \<lparr>channel = Some ''video'', videoId = None\<rparr>
   \<and> list_all is_word ''''
   \<and> resolveTwitchSource (''https://www.twitch.tv/'' @ '''') \<noteq> \<lparr>channel = Some '''', videoId = None\<rparr>"
  unfolding resolveTwitchSource_def append.simps
  by (simp only: video_bare option.case) (simp add: is_word_def)

text \<open>
  C6. The name \<open>videogames\<close> consists of word characters, and for each of the three shapes
  \<open>resolveTwitchSource\<close> returns neither a channel nor a video id, where the claim says the
  channel \<open>videogames\<close>. The lookahead \<open>(?!videos?)\<close> is not anchored, so it turns away every
  name that begins with \<open>video\<close>; the comment on the pattern says that it excludes
  \<open>twitch.tv/video\<close> and \<open>twitch.tv/videos\<close>.
\<close>

theorem resolveTwitchSource_channel_videogames:
  "list_all is_word ''videogames''
   \<and> resolveTwitchSource (''https://www.twitch.tv/'' @ ''videogames'')
       = \<lparr>channel = None, videoId = None\<rparr>
   \<and> resolveTwitchSource (''https://player.twitch.tv/?channel='' @ ''videogames'')
       = \<lparr>channel = None, videoId = None\<rparr>
   \<and> resolveTwitchSource (''twitch/'' @ ''videogames'') = \<lparr>channel = None, videoId = None\<rparr>"
  unfolding resolveTwitchSource_def append.simps
  by (simp only: videogames_no_match option.case) (simp add: is_word_def)

text \<open>
  C7. For every non-empty digit string \<open>d\<close>, \<open>resolveTwitchSource\<close> returns the video id \<open>d\<close>
  and no channel for each of \<open>https://www.twitch.tv/videos/d\<close>,
  \<open>https://player.twitch.tv/?video=d\<close> and \<open>twitch/video/d\<close>; and
  \<open>https://www.twitch.tv/videos\<close>, with no id after it, gives neither.
\<close>

theorem resolveTwitchSource_video_shapes:
  assumes "d \<noteq> []" and "list_all is_digit d"
  shows "resolveTwitchSource (''https://www.twitch.tv/videos/'' @ d) = \<lparr>channel = None, videoId = Some d\<rparr>
    \<and> resolveTwitchSource (''https://player.twitch.tv/?video='' @ d)
        = \<lparr>channel = None, videoId = Some d\<rparr>
    \<and> resolveTwitchSource (''twitch/video/'' @ d) = \<lparr>channel = None, videoId = Some d\<rparr>
    \<and> resolveTwitchSource ''https://www.twitch.tv/videos'' = \<lparr>channel = None, videoId = None\<rparr>"
proof -
  from assms(2) have w: "list_all (in_class Digit) d"
    by (simp add: list_all_iff)
  show ?thesis
    unfolding resolveTwitchSource_def
    by (simp only: video_shapes [OF assms(1) w] videos_bare option.case simp_thms)
qed

text \<open>The three shapes at the id \<open>123456789\<close> of the source's comment.\<close>

theorem resolveTwitchSource_video_shapes_witness:
  "resolveTwitchSource ''https://www.twitch.tv/videos/123456789'' = \<lparr>channel = None, videoId = Some ''123456789''\<rparr>
   \<and> resolveTwitchSource ''https://player.twitch.tv/?video=123456789''
       = \<lparr>channel = None, videoId = Some ''123456789''\<rparr>
   \<and> resolveTwitchSource ''twitch/video/123456789'' = \<lparr>channel = None, videoId = Some ''123456789''\<rparr>"
proof -
  have "''123456789'' \<noteq> []" and "list_all is_digit ''123456789''"
    by (simp_all add: is_digit_def)
  from resolveTwitchSource_video_shapes [OF this] show ?thesis by simp
qed

section \<open>Properties of \<open>twitchQualityToVideoQuality\<close>\<close>

text \<open>
  C8. For every Twitch quality \<open>q\<close> and every optional active-quality name \<open>a\<close>, the result
  has the id \<open>q.name\<close>, the width, height and bitrate of \<open>q\<close> unchanged, the codec
  \<open>q.codecs\<close>, and is selected exactly when \<open>a\<close> is \<open>q.name\<close>.
\<close>

theorem twitchQualityToVideoQuality_fields:
  "vq_id (twitchQualityToVideoQuality q a) = tq_name q
   \<and> vq_width (twitchQualityToVideoQuality q a) = tq_width q
   \<and> vq_height (twitchQualityToVideoQuality q a) = tq_height q
   \<and> vq_bitrate (twitchQualityToVideoQuality q a) = tq_bitrate q
   \<and> vq_codec (twitchQualityToVideoQuality q a) = tq_codecs q
   \<and> vq_selected (twitchQualityToVideoQuality q a) = (a = Some (tq_name q))"
  by (simp add: twitchQualityToVideoQuality_def)

section \<open>Properties of \<open>findTwitchPoster\<close>\<close>

subsection \<open>Keys and URLs\<close>

lemma dec_sizes:
  "dec 1920 = ''1920''" "dec 1080 = ''1080''" "dec 1280 = ''1280''" "dec 720 = ''720''"
  "dec 640 = ''640''" "dec 360 = ''360''"
  by (simp_all add: dec.simps digit_char_def)

lemma cacheKey_inj: "cacheKey src ch = cacheKey src' ch' \<longleftrightarrow> src = src' \<and> ch = ch'"
  by (auto simp: cacheKey_def)

lemma probe_url_nonempty: "probe_url pr sz \<noteq> []"
  by (cases sz) (simp add: probe_url_def)

subsection \<open>Using the invariant\<close>

lemmas wf_defs = wf_state_def ids_bounded_def pending_unsettled_def unsettled_pending_def
  probing_uncached_def resolved_cached_def none_rejected_def cache_successes_def

lemma wf_init: "wf_state init"
  by (simp add: wf_defs init_def)

lemma on_catch_Fulfilled: "on_catch r = Fulfilled v \<Longrightarrow> v \<noteq> [] \<Longrightarrow> r = Fulfilled v"
  by (cases r) auto

lemma on_catch_not_Rejected: "on_catch r \<noteq> Rejected"
  by (cases r) auto

lemma wf_stateI:
  assumes "\<And>p pr ph. promises s p = Some (pr, ph) \<Longrightarrow> p < nextId s"
    and "\<And>k p. pendingFetch s k = Some p \<Longrightarrow>
           \<exists>pr ph. promises s p = Some (pr, ph) \<and> key_of pr = k \<and> registered ph"
    and "\<And>p pr ph. promises s p = Some (pr, ph) \<Longrightarrow> registered ph \<Longrightarrow>
           pendingFetch s (key_of pr) = Some p"
    and "\<And>p pr ph. promises s p = Some (pr, ph) \<Longrightarrow> probing ph \<or> ph = Resolved (Fulfilled []) \<Longrightarrow>
           posterCache s (key_of pr) = None"
    and "\<And>p pr ph v. promises s p = Some (pr, ph) \<Longrightarrow> v \<noteq> [] \<Longrightarrow>
           ph = Resolved (Fulfilled v) \<or> ph = Finalized (Fulfilled v) \<or> ph = Settled (Fulfilled v) \<Longrightarrow>
           posterCache s (key_of pr) = Some v"
    and "\<And>p pr ph. promises s p = Some (pr, ph) \<Longrightarrow>
           ph \<noteq> Resolved Rejected \<and> ph \<noteq> Finalized Rejected \<and> ph \<noteq> Settled Rejected"
    and "\<And>k u. posterCache s k = Some u \<Longrightarrow>
           u \<noteq> [] \<and> (\<exists>status < 400. (u, Response status) \<in> set (replies s))"
  shows "wf_state s"
proof -
  have "ids_bounded s" unfolding ids_bounded_def using assms(1) by blast
  moreover have "pending_unsettled s" unfolding pending_unsettled_def using assms(2) by blast
  moreover have "unsettled_pending s" unfolding unsettled_pending_def using assms(3) by blast
  moreover have "probing_uncached s" unfolding probing_uncached_def using assms(4) by blast
  moreover have "resolved_cached s" unfolding resolved_cached_def using assms(5) by blast
  moreover have "none_rejected s" unfolding none_rejected_def using assms(6) by blast
  moreover have "cache_successes s" unfolding cache_successes_def using assms(7) by blast
  ultimately show ?thesis unfolding wf_state_def by blast
qed

lemma wfD_bound: "wf_state s \<Longrightarrow> promises s p = Some (pr, ph) \<Longrightarrow> p < nextId s"
  unfolding wf_state_def ids_bounded_def by blast

lemma wfD_pending:
  "wf_state s \<Longrightarrow> pendingFetch s k = Some p \<Longrightarrow>
     \<exists>pr ph. promises s p = Some (pr, ph) \<and> key_of pr = k \<and> registered ph"
  unfolding wf_state_def pending_unsettled_def by blast

lemma wfD_unsettled:
  "wf_state s \<Longrightarrow> promises s p = Some (pr, ph) \<Longrightarrow> registered ph \<Longrightarrow>
     pendingFetch s (key_of pr) = Some p"
  unfolding wf_state_def unsettled_pending_def by blast

lemma wfD_uncached:
  "wf_state s \<Longrightarrow> promises s p = Some (pr, ph) \<Longrightarrow> probing ph \<or> ph = Resolved (Fulfilled []) \<Longrightarrow>
     posterCache s (key_of pr) = None"
  unfolding wf_state_def probing_uncached_def by blast

lemma wfD_cached:
  "wf_state s \<Longrightarrow> promises s p = Some (pr, ph) \<Longrightarrow> v \<noteq> [] \<Longrightarrow>
     ph = Resolved (Fulfilled v) \<or> ph = Finalized (Fulfilled v) \<or> ph = Settled (Fulfilled v) \<Longrightarrow>
     posterCache s (key_of pr) = Some v"
  unfolding wf_state_def resolved_cached_def by blast

lemma wfD_fulfilled:
  "wf_state s \<Longrightarrow> promises s p = Some (pr, ph) \<Longrightarrow>
     ph \<noteq> Resolved Rejected \<and> ph \<noteq> Finalized Rejected \<and> ph \<noteq> Settled Rejected"
  unfolding wf_state_def none_rejected_def by blast

lemma wfD_cache:
  "wf_state s \<Longrightarrow> posterCache s k = Some u \<Longrightarrow>
     u \<noteq> [] \<and> (\<exists>status < 400. (u, Response status) \<in> set (replies s))"
  unfolding wf_state_def cache_successes_def by blast

text \<open>Two promises whose \<open>.finally\<close> callback has not run have different keys.\<close>

lemma wf_unsettled_unique:
  assumes "wf_state s" "promises s p = Some (pr, ph)" "registered ph"
    "promises s q = Some (qr, qh)" "registered qh" "key_of pr = key_of qr"
  shows "p = q"
  using wfD_unsettled [OF assms(1,2,3)] wfD_unsettled [OF assms(1,4,5)] assms(6) by simp

subsection \<open>Each operation keeps the invariant\<close>

lemma wf_finalize_step:
  assumes wf: "wf_state s" and p: "promises s p = Some (pr, Resolved r)"
  shows "wf_state (s\<lparr>pendingFetch := (pendingFetch s)(key_of pr := None),
            promises := (promises s)(p \<mapsto> (pr, Finalized (on_catch r)))\<rparr>)"
    (is "wf_state ?s'")
proof (rule wf_stateI)
  fix q qr qh
  assume q: "promises ?s' q = Some (qr, qh)"
  show "q < nextId ?s'"
    using q wfD_bound [OF wf p] wfD_bound [OF wf, of q qr qh] by (simp split: if_splits)
  show "qh \<noteq> Resolved Rejected \<and> qh \<noteq> Finalized Rejected \<and> qh \<noteq> Settled Rejected"
    using q wfD_fulfilled [OF wf, of q qr qh] by (auto split: if_splits simp: on_catch_not_Rejected)
  show "posterCache ?s' (key_of qr) = None" if "probing qh \<or> qh = Resolved (Fulfilled [])"
    using q that wfD_uncached [OF wf, of q qr qh] by (auto split: if_splits)
  show "posterCache ?s' (key_of qr) = Some v"
    if "v \<noteq> []" "qh = Resolved (Fulfilled v) \<or> qh = Finalized (Fulfilled v) \<or> qh = Settled (Fulfilled v)" for v
  proof (cases "q = p")
    case True
    with q that have "r = Fulfilled v" by (auto dest: on_catch_Fulfilled)
    with True q p wfD_cached [OF wf p that(1)] show ?thesis by simp
  next
    case False
    with q that wfD_cached [OF wf, of q qr qh v] show ?thesis by simp
  qed
  show "pendingFetch ?s' (key_of qr) = Some q" if "registered qh"
  proof -
    from q that have neq: "q \<noteq> p" and old: "promises s q = Some (qr, qh)"
      by (auto split: if_splits)
    have "key_of qr \<noteq> key_of pr"
      using wf_unsettled_unique [OF wf old that p] neq by auto
    with wfD_unsettled [OF wf old that] show ?thesis by simp
  qed
next
  fix k q
  assume "pendingFetch ?s' k = Some q"
  then have k: "k \<noteq> key_of pr" and old: "pendingFetch s k = Some q"
    by (auto split: if_splits)
  from wfD_pending [OF wf old] obtain qr qh
    where q: "promises s q = Some (qr, qh)" "key_of qr = k" "registered qh" by blast
  with k p have "q \<noteq> p" by auto
  with q show "\<exists>pr ph. promises ?s' q = Some (pr, ph) \<and> key_of pr = k \<and> registered ph"
    by simp
next
  fix k u
  assume "posterCache ?s' k = Some u"
  then show "u \<noteq> [] \<and> (\<exists>status < 400. (u, Response status) \<in> set (replies ?s'))"
    using wfD_cache [OF wf, of k u] by simp
qed

lemma finalize_Resolved:
  "promises s p = Some (pr, Resolved r) \<Longrightarrow>
     finalize p s = s\<lparr>pendingFetch := (pendingFetch s)(key_of pr := None),
            promises := (promises s)(p \<mapsto> (pr, Finalized (on_catch r)))\<rparr>"
  by (simp add: finalize_def key_of_def)

lemma finalize_other:
  "\<forall>pr r. promises s p \<noteq> Some (pr, Resolved r) \<Longrightarrow> finalize p s = s"
  by (simp add: finalize_def split: option.splits phase.splits)

lemma wf_finalize: "wf_state s \<Longrightarrow> wf_state (finalize p s)"
proof (cases "\<exists>pr r. promises s p = Some (pr, Resolved r)")
  case True
  assume "wf_state s"
  with True show ?thesis by (auto simp: finalize_Resolved intro: wf_finalize_step)
next
  case False
  assume "wf_state s"
  with False show ?thesis by (simp add: finalize_other)
qed

lemma settle_Finalized:
  "promises s p = Some (pr, Finalized r) \<Longrightarrow>
     settle p s = s\<lparr>promises := (promises s)(p \<mapsto> (pr, Settled r))\<rparr>"
  by (simp add: settle_def)

lemma settle_other:
  "\<forall>pr r. promises s p \<noteq> Some (pr, Finalized r) \<Longrightarrow> settle p s = s"
  by (simp add: settle_def split: option.splits phase.splits)

lemma wf_settle_step:
  assumes wf: "wf_state s" and p: "promises s p = Some (pr, Finalized r)"
  shows "wf_state (s\<lparr>promises := (promises s)(p \<mapsto> (pr, Settled r))\<rparr>)"
    (is "wf_state ?s'")
proof (rule wf_stateI)
  fix q qr qh
  assume q: "promises ?s' q = Some (qr, qh)"
  show "q < nextId ?s'"
    using q wfD_bound [OF wf p] wfD_bound [OF wf, of q qr qh] by (simp split: if_splits)
  show "qh \<noteq> Resolved Rejected \<and> qh \<noteq> Finalized Rejected \<and> qh \<noteq> Settled Rejected"
    using q wfD_fulfilled [OF wf, of q qr qh] wfD_fulfilled [OF wf p]
    by (auto split: if_splits)
  show "posterCache ?s' (key_of qr) = None" if "probing qh \<or> qh = Resolved (Fulfilled [])"
    using q that wfD_uncached [OF wf, of q qr qh] by (auto split: if_splits)
  show "posterCache ?s' (key_of qr) = Some v"
    if "v \<noteq> []"
      "qh = Resolved (Fulfilled v) \<or> qh = Finalized (Fulfilled v) \<or> qh = Settled (Fulfilled v)"
    for v
  proof (cases "q = p")
    case True
    with q that have "r = Fulfilled v" by auto
    with True q p wfD_cached [OF wf p that(1)] show ?thesis by simp
  next
    case False
    with q that wfD_cached [OF wf, of q qr qh v] show ?thesis by simp
  qed
  show "pendingFetch ?s' (key_of qr) = Some q" if "registered qh"
    using q that wfD_unsettled [OF wf, of q qr qh] by (auto split: if_splits)
next
  fix k q
  assume old: "pendingFetch ?s' k = Some q"
  then have "pendingFetch s k = Some q" by simp
  from wfD_pending [OF wf this] obtain qr qh
    where q: "promises s q = Some (qr, qh)" "key_of qr = k" "registered qh" by blast
  with p have "q \<noteq> p" by auto
  with q show "\<exists>pr ph. promises ?s' q = Some (pr, ph) \<and> key_of pr = k \<and> registered ph"
    by simp
next
  fix k u
  assume "posterCache ?s' k = Some u"
  then show "u \<noteq> [] \<and> (\<exists>status < 400. (u, Response status) \<in> set (replies ?s'))"
    using wfD_cache [OF wf, of k u] by simp
qed

lemma wf_settle: "wf_state s \<Longrightarrow> wf_state (settle p s)"
proof (cases "\<exists>pr r. promises s p = Some (pr, Finalized r)")
  case True
  assume "wf_state s"
  with True show ?thesis by (auto simp: settle_Finalized intro: wf_settle_step)
next
  case False
  assume "wf_state s"
  with False show ?thesis by (simp add: settle_other)
qed


lemma wf_keep_uncached:
  assumes wf: "wf_state s" and p: "promises s p = Some (pr, ph)" and ph: "probing ph"
    and cache: "posterCache s' = posterCache s"
    and pend: "pendingFetch s' = pendingFetch s"
    and cnt: "nextId s' = nextId s"
    and repl: "set (replies s) \<subseteq> set (replies s')"
    and proms: "promises s' = (promises s)(p \<mapsto> (pr, ph'))"
    and ph': "probing ph' \<or> ph' = Resolved (Fulfilled [])"
  shows "wf_state s'"
proof (rule wf_stateI)
  from ph have unsettled: "registered ph" by (cases ph) auto
  from ph' have unsettled': "registered ph'" by (cases ph') auto
  fix q qr qh
  assume q: "promises s' q = Some (qr, qh)"
  show "q < nextId s'"
    using q wfD_bound [OF wf p] wfD_bound [OF wf, of q qr qh]
    by (simp add: proms cnt split: if_splits)
  show "qh \<noteq> Resolved Rejected \<and> qh \<noteq> Finalized Rejected \<and> qh \<noteq> Settled Rejected"
    using q ph' wfD_fulfilled [OF wf, of q qr qh] by (auto simp: proms split: if_splits)
  show "posterCache s' (key_of qr) = None" if "probing qh \<or> qh = Resolved (Fulfilled [])"
    using q that wfD_uncached [OF wf, of q qr qh] wfD_uncached [OF wf p] ph
    by (auto simp: proms cache split: if_splits)
  show "posterCache s' (key_of qr) = Some v"
    if "v \<noteq> []" "qh = Resolved (Fulfilled v) \<or> qh = Finalized (Fulfilled v) \<or> qh = Settled (Fulfilled v)" for v
    using q that ph' wfD_cached [OF wf, of q qr qh v]
    by (auto simp: proms cache split: if_splits)
  show "pendingFetch s' (key_of qr) = Some q" if "registered qh"
    using q that wfD_unsettled [OF wf, of q qr qh] wfD_unsettled [OF wf p unsettled]
    by (auto simp: proms pend split: if_splits)
next
  from ph' have unsettled': "registered ph'" by (cases ph') auto
  fix k q
  assume "pendingFetch s' k = Some q"
  then have "pendingFetch s k = Some q" by (simp add: pend)
  from wfD_pending [OF wf this] obtain qr qh
    where q: "promises s q = Some (qr, qh)" "key_of qr = k" "registered qh" by blast
  show "\<exists>pr ph. promises s' q = Some (pr, ph) \<and> key_of pr = k \<and> registered ph"
  proof (cases "q = p")
    case True
    with q p unsettled' show ?thesis by (simp add: proms)
  next
    case False
    with q show ?thesis by (simp add: proms)
  qed
next
  fix k u
  assume "posterCache s' k = Some u"
  then show "u \<noteq> [] \<and> (\<exists>status < 400. (u, Response status) \<in> set (replies s'))"
    using wfD_cache [OF wf, of k u] repl by (auto simp: cache)
qed

lemma wf_success:
  assumes wf: "wf_state s" and p: "promises s p = Some (pr, ph)" and ph: "probing ph"
    and cache: "posterCache s' = (posterCache s)(key_of pr \<mapsto> u)"
    and pend: "pendingFetch s' = pendingFetch s"
    and cnt: "nextId s' = nextId s"
    and repl: "replies s' = replies s @ [(u, Response status)]"
    and ok: "status < 400" and u: "u \<noteq> []"
    and proms: "promises s' = (promises s)(p \<mapsto> (pr, Resolved (Fulfilled u)))"
  shows "wf_state s'"
proof (rule wf_stateI)
  from ph have unsettled: "registered ph" by (cases ph) auto
  note uncached = wfD_uncached [OF wf p disjI1 [OF ph]]
  fix q qr qh
  assume q: "promises s' q = Some (qr, qh)"
  show "q < nextId s'"
    using q wfD_bound [OF wf p] wfD_bound [OF wf, of q qr qh]
    by (simp add: proms cnt split: if_splits)
  show "qh \<noteq> Resolved Rejected \<and> qh \<noteq> Finalized Rejected \<and> qh \<noteq> Settled Rejected"
    using q wfD_fulfilled [OF wf, of q qr qh] by (auto simp: proms split: if_splits)
  show "pendingFetch s' (key_of qr) = Some q" if "registered qh"
    using q that wfD_unsettled [OF wf, of q qr qh] wfD_unsettled [OF wf p unsettled]
    by (auto simp: proms pend split: if_splits)
  show "posterCache s' (key_of qr) = None" if qh: "probing qh \<or> qh = Resolved (Fulfilled [])"
  proof -
    from q qh u have neq: "q \<noteq> p" and old: "promises s q = Some (qr, qh)"
      by (auto simp: proms split: if_splits)
    from qh have "registered qh" by (cases qh) auto
    from wf_unsettled_unique [OF wf old this p unsettled] neq
    have "key_of qr \<noteq> key_of pr" by auto
    with wfD_uncached [OF wf old qh] show ?thesis by (simp add: cache)
  qed
  show "posterCache s' (key_of qr) = Some v"
    if v: "v \<noteq> []" and qh: "qh = Resolved (Fulfilled v) \<or> qh = Finalized (Fulfilled v) \<or> qh = Settled (Fulfilled v)" for v
  proof (cases "q = p")
    case True
    with q qh show ?thesis by (auto simp: proms cache)
  next
    case False
    with q have old: "promises s q = Some (qr, qh)" by (simp add: proms)
    from wfD_cached [OF wf old v qh] uncached have "key_of qr \<noteq> key_of pr" by auto
    with wfD_cached [OF wf old v qh] show ?thesis by (simp add: cache)
  qed
next
  fix k q
  assume "pendingFetch s' k = Some q"
  then have "pendingFetch s k = Some q" by (simp add: pend)
  from wfD_pending [OF wf this] obtain qr qh
    where q: "promises s q = Some (qr, qh)" "key_of qr = k" "registered qh" by blast
  show "\<exists>pr ph. promises s' q = Some (pr, ph) \<and> key_of pr = k \<and> registered ph"
  proof (cases "q = p")
    case True
    with q p show ?thesis by (simp add: proms)
  next
    case False
    with q show ?thesis by (simp add: proms)
  qed
next
  fix k v
  assume "posterCache s' k = Some v"
  then show "v \<noteq> [] \<and> (\<exists>status < 400. (v, Response status) \<in> set (replies s'))"
    using wfD_cache [OF wf, of k v] ok u by (auto simp: cache repl split: if_splits)
qed

lemma wf_new_promise:
  assumes wf: "wf_state s"
    and uncached: "posterCache s (key_of pr) = None"
    and idle: "pendingFetch s (key_of pr) = None"
    and ph: "probing ph"
    and cache: "posterCache s' = posterCache s"
    and pend: "pendingFetch s' = (pendingFetch s)(key_of pr \<mapsto> nextId s)"
    and cnt: "nextId s' = Suc (nextId s)"
    and repl: "replies s' = replies s"
    and proms: "promises s' = (promises s)(nextId s \<mapsto> (pr, ph))"
  shows "wf_state s'"
proof (rule wf_stateI)
  from ph have unsettled: "registered ph" by (cases ph) auto
  fix q qr qh
  assume q: "promises s' q = Some (qr, qh)"
  show "q < nextId s'"
    using q wfD_bound [OF wf, of q qr qh] by (auto simp: proms cnt split: if_splits)
  show "qh \<noteq> Resolved Rejected \<and> qh \<noteq> Finalized Rejected \<and> qh \<noteq> Settled Rejected"
    using q ph wfD_fulfilled [OF wf, of q qr qh] by (auto simp: proms split: if_splits)
  show "posterCache s' (key_of qr) = None" if "probing qh \<or> qh = Resolved (Fulfilled [])"
    using q that wfD_uncached [OF wf, of q qr qh] uncached
    by (auto simp: proms cache split: if_splits)
  show "posterCache s' (key_of qr) = Some v"
    if "v \<noteq> []" "qh = Resolved (Fulfilled v) \<or> qh = Finalized (Fulfilled v) \<or> qh = Settled (Fulfilled v)" for v
    using q that ph wfD_cached [OF wf, of q qr qh v]
    by (auto simp: proms cache split: if_splits)
  show "pendingFetch s' (key_of qr) = Some q" if "registered qh"
    using q that wfD_unsettled [OF wf, of q qr qh] idle
    by (auto simp: proms pend split: if_splits)
next
  from ph have unsettled: "registered ph" by (cases ph) auto
  fix k q
  assume k: "pendingFetch s' k = Some q"
  show "\<exists>pr ph. promises s' q = Some (pr, ph) \<and> key_of pr = k \<and> registered ph"
  proof (cases "k = key_of pr")
    case True
    with k unsettled show ?thesis by (simp add: pend proms)
  next
    case False
    with k have "pendingFetch s k = Some q" by (simp add: pend)
    from wfD_pending [OF wf this] obtain qr qh
      where q: "promises s q = Some (qr, qh)" "key_of qr = k" "registered qh" by blast
    from wfD_bound [OF wf q(1)] have "q \<noteq> nextId s" by simp
    with q show ?thesis by (simp add: proms)
  qed
next
  fix k u
  assume "posterCache s' k = Some u"
  then show "u \<noteq> [] \<and> (\<exists>status < 400. (u, Response status) \<in> set (replies s'))"
    using wfD_cache [OF wf, of k u] by (simp add: cache repl)
qed


subsection \<open>The cases of the operations\<close>

lemma respond_idle:
  "\<forall>pr sz rest. promises s p \<noteq> Some (pr, Probing sz rest) \<Longrightarrow> respond p out s = s"
  by (simp add: respond_def split: option.splits phase.splits)

lemma respond_success:
  assumes "promises s p = Some (pr, Probing sz rest)" and "status < 400"
  shows "respond p (Response status) s =
    s\<lparr>posterCache := (posterCache s)(key_of pr \<mapsto> probe_url pr sz),
      promises := (promises s)(p \<mapsto> (pr, Resolved (Fulfilled (probe_url pr sz)))),
      replies := replies s @ [(probe_url pr sz, Response status)]\<rparr>"
  using assms by (simp add: respond_def resolve_def key_of_def Let_def)

lemma respond_next:
  assumes "promises s p = Some (pr, Probing sz (sz' # rest))" and "\<not> status < 400"
  shows "respond p (Response status) s =
    s\<lparr>promises := (promises s)(p \<mapsto> (pr, Probing sz' rest)),
      fetched := fetched s @ [(probe_url pr sz', p_abort pr)],
      replies := replies s @ [(probe_url pr sz, Response status)]\<rparr>"
  using assms by (simp add: respond_def Let_def)

lemma respond_last:
  assumes "promises s p = Some (pr, Probing sz [])" and "\<not> status < 400"
  shows "respond p (Response status) s =
    s\<lparr>promises := (promises s)(p \<mapsto> (pr, Resolved (Fulfilled []))),
      replies := replies s @ [(probe_url pr sz, Response status)]\<rparr>"
  using assms by (simp add: respond_def resolve_def Let_def)

lemma respond_error:
  assumes "promises s p = Some (pr, Probing sz rest)" and "out = NetworkError \<or> out = AbortError"
  shows "respond p out s =
    s\<lparr>promises := (promises s)(p \<mapsto> (pr, Resolved (Fulfilled []))),
      replies := replies s @ [(probe_url pr sz, out)]\<rparr>"
  using assms by (auto simp: respond_def resolve_def Let_def)

lemma call_cached:
  "posterCache s (cacheKey src ch) = Some u \<Longrightarrow> findTwitchPoster src ch ab s = (Value u, s)"
  by (simp add: findTwitchPoster_def)

lemma call_pending:
  "posterCache s (cacheKey src ch) = None \<Longrightarrow> pendingFetch s (cacheKey src ch) = Some p \<Longrightarrow>
     findTwitchPoster src ch ab s = (Pending p, s)"
  by (simp add: findTwitchPoster_def)

lemma call_new:
  assumes "posterCache s (cacheKey src ch) = None" and "pendingFetch s (cacheKey src ch) = None"
  shows "findTwitchPoster src ch ab s =
    (Pending (nextId s),
     s\<lparr>pendingFetch := (pendingFetch s)(cacheKey src ch \<mapsto> nextId s),
       promises := (promises s)(nextId s \<mapsto>
         (\<lparr>p_src = src, p_isChannel = ch, p_abort = ab\<rparr>, Probing (1920, 1080) [(1280, 720), (640, 360)])),
       fetched := fetched s @
         [(probe_url \<lparr>p_src = src, p_isChannel = ch, p_abort = ab\<rparr> (1920, 1080), ab)],
       nextId := Suc (nextId s)\<rparr>)"
  using assms by (simp add: findTwitchPoster_def channel_sizes_def video_sizes_def Let_def)

subsection \<open>The invariant holds in every reachable state\<close>

lemma wf_respond: assumes wf: "wf_state s" shows "wf_state (respond p out s)"
proof (cases "\<exists>pr sz rest. promises s p = Some (pr, Probing sz rest)")
  case False
  with wf show ?thesis by (simp add: respond_idle)
next
  case True
  then obtain pr sz rest where p: "promises s p = Some (pr, Probing sz rest)" by blast
  have pb: "probing (Probing sz rest)" by simp
  show ?thesis
  proof (cases out)
    case (Response status)
    show ?thesis
    proof (cases "status < 400")
      case True
      show ?thesis
        unfolding Response respond_success [OF p True]
        by (rule wf_success [OF wf p pb _ _ _ _ True probe_url_nonempty]) simp_all
    next
      case False
      show ?thesis
      proof (cases rest)
        case Nil
        show ?thesis
          unfolding Response respond_last [OF p [unfolded Nil] False]
          by (rule wf_keep_uncached [OF wf p pb]) auto
      next
        case (Cons sz' rest')
        show ?thesis
          unfolding Response respond_next [OF p [unfolded Cons] False]
          by (rule wf_keep_uncached [OF wf p pb]) auto
      qed
    qed
  next
    case NetworkError
    show ?thesis
      unfolding respond_error [OF p disjI1 [OF NetworkError]]
      by (rule wf_keep_uncached [OF wf p pb]) auto
  next
    case AbortError
    show ?thesis
      unfolding respond_error [OF p disjI2 [OF AbortError]]
      by (rule wf_keep_uncached [OF wf p pb]) auto
  qed
qed

lemma wf_call: assumes wf: "wf_state s" shows "wf_state (snd (findTwitchPoster src ch ab s))"
proof (cases "posterCache s (cacheKey src ch)")
  case (Some u)
  with wf show ?thesis by (simp add: call_cached)
next
  case None
  show ?thesis
  proof (cases "pendingFetch s (cacheKey src ch)")
    case (Some p)
    with wf None show ?thesis by (simp add: call_pending)
  next
    case idle: None
    have k: "key_of \<lparr>p_src = src, p_isChannel = ch, p_abort = ab\<rparr> = cacheKey src ch"
      by (simp add: key_of_def)
    show ?thesis
      unfolding call_new [OF None idle] snd_conv
      by (rule wf_new_promise [OF wf None [folded k] idle [folded k],
            where ph = "Probing (1920, 1080) [(1280, 720), (640, 360)]"])
        (simp_all add: k)
  qed
qed

lemma wf_step: "wf_state s \<Longrightarrow> wf_state (step s e)"
  by (cases e) (simp_all add: wf_call wf_respond wf_finalize wf_settle)

lemma wf_run: "wf_state s \<Longrightarrow> wf_state (run es s)"
  unfolding run_def by (induction es arbitrary: s) (simp_all add: wf_step)

lemma wf_reachable: "wf_state (run es init)"
  by (rule wf_run [OF wf_init])

subsection \<open>Cache entries stay\<close>

lemma probe_loop_cache: "posterCache (probe_loop p pr szs s) = posterCache s"
  by (cases szs) (simp_all add: resolve_def)

lemma cache_step:
  assumes wf: "wf_state s" and c: "posterCache s k = Some u"
  shows "posterCache (step s e) k = Some u"
proof (cases e)
  case (Call src ch ab)
  show ?thesis
  proof (cases "posterCache s (cacheKey src ch) = None \<and> pendingFetch s (cacheKey src ch) = None")
    case True
    with c show ?thesis by (simp add: Call call_new)
  next
    case False
    with c show ?thesis
      by (cases "posterCache s (cacheKey src ch)"; cases "pendingFetch s (cacheKey src ch)")
        (simp_all add: Call call_cached call_pending)
  qed
next
  case (Finalize p)
  with c show ?thesis
    by (simp add: finalize_def split: option.splits phase.splits)
next
  case (Settle p)
  with c show ?thesis
    by (simp add: settle_def split: option.splits phase.splits)
next
  case (Respond p out)
  show ?thesis
  proof (cases "\<exists>pr sz rest. promises s p = Some (pr, Probing sz rest)")
    case False
    with c show ?thesis by (simp add: Respond respond_idle)
  next
    case True
    then obtain pr sz rest where p: "promises s p = Some (pr, Probing sz rest)" by blast
    from wfD_uncached [OF wf p] c have "key_of pr \<noteq> k" by auto
    with c p show ?thesis
      by (auto simp: Respond respond_def resolve_def key_of_def Let_def probe_loop_cache
          split: outcome.splits)
  qed
qed

lemma cache_run: "wf_state s \<Longrightarrow> posterCache s k = Some u \<Longrightarrow> posterCache (run es s) k = Some u"
  unfolding run_def by (induction es arbitrary: s) (simp_all add: cache_step wf_step)

subsection \<open>Evaluating runs\<close>

lemma run_Cons: "run (e # es) s = run es (step s e)"
  by (simp add: run_def)

lemma run_Nil: "run [] s = s"
  by (simp add: run_def)

lemmas poster_eval = run_Cons run_Nil init_def findTwitchPoster_def cacheKey_def channel_sizes_def
  video_sizes_def respond_def resolve_def finalize_def settle_def probe_url_def dec_sizes
  key_of_def Let_def

subsection \<open>The result cache\<close>

text \<open>
  C3. Once a promise for the key \<open>(src, isChannel)\<close> has been resolved with a URL \<open>u\<close>, in
  a state reached by any events \<open>es\<close>, then after any further events \<open>es'\<close> a call with
  the same \<open>src\<close> and \<open>isChannel\<close> returns \<open>u\<close> from \<open>posterCache\<close> and leaves the state
  as it is: it issues no \<open>fetch\<close>.
\<close>

theorem findTwitchPoster_cache_hit:
  assumes "promises (run es init) p = Some (pr, ph)"
    and "ph = Resolved (Fulfilled u) \<or> ph = Finalized (Fulfilled u) \<or> ph = Settled (Fulfilled u)"
    and "u \<noteq> []"
  shows "findTwitchPoster (p_src pr) (p_isChannel pr) ab (run es' (run es init))
           = (Value u, run es' (run es init))
    \<and> posterCache (run es' (run es init)) (cacheKey (p_src pr) (p_isChannel pr)) = Some u
    \<and> fetched (snd (findTwitchPoster (p_src pr) (p_isChannel pr) ab (run es' (run es init))))
        = fetched (run es' (run es init))"
proof -
  have "posterCache (run es init) (key_of pr) = Some u"
    using wfD_cached [OF wf_reachable assms(1,3,2)] .
  then have "posterCache (run es' (run es init)) (cacheKey (p_src pr) (p_isChannel pr)) = Some u"
    unfolding key_of_def by (rule cache_run [OF wf_reachable])
  then show ?thesis by (simp add: call_cached)
qed

text \<open>
  A channel whose second probe succeeds; the later call comes after the chain has run
  and after a call for another key.
\<close>

theorem findTwitchPoster_cache_hit_witness:
  "promises (run [Call ''a'' True 0, Respond 0 (Response 404), Respond 0 (Response 200)] init) 0
     = Some (\<lparr>p_src = ''a'', p_isChannel = True, p_abort = 0\<rparr>,
         Resolved (Fulfilled ''https://static-cdn.jtvnw.net/previews-ttv/live_user_a-1280x720.jpg''))
   \<and> findTwitchPoster ''a'' True 1
        (run [Finalize 0, Call ''b'' False 2]
          (run [Call ''a'' True 0, Respond 0 (Response 404), Respond 0 (Response 200)] init))
      = (Value ''https://static-cdn.jtvnw.net/previews-ttv/live_user_a-1280x720.jpg'',
         run [Finalize 0, Call ''b'' False 2]
          (run [Call ''a'' True 0, Respond 0 (Response 404), Respond 0 (Response 200)] init))"
proof -
  have p: "promises (run [Call ''a'' True 0, Respond 0 (Response 404), Respond 0 (Response 200)] init) 0
     = Some (\<lparr>p_src = ''a'', p_isChannel = True, p_abort = 0\<rparr>,
         Resolved (Fulfilled ''https://static-cdn.jtvnw.net/previews-ttv/live_user_a-1280x720.jpg''))"
    by (simp add: poster_eval)
  have u: "''https://static-cdn.jtvnw.net/previews-ttv/live_user_a-1280x720.jpg'' \<noteq> []"
    by simp
  from findTwitchPoster_cache_hit [OF p disjI1 [OF refl] u, of 1 "[Finalize 0, Call ''b'' False 2]"] p
  show ?thesis by simp
qed

subsection \<open>De-duplication of calls in flight\<close>

text \<open>
  C4, as amended. In every reachable state at most one promise per key is probing. A
  call made while \<open>pendingFetch\<close> holds the key changes nothing, so it starts no
  \<open>fetch\<close>; it returns the pending promise, unless \<open>posterCache\<close> holds the key already, in
  which case it returns the cached URL, and that URL is the one the pending promise has
  been resolved with. The key is in \<open>pendingFetch\<close>, bound to a promise, exactly as long as
  that promise is a promise for the key whose \<open>.finally\<close> callback has not run: the callback
  removes the key and leaves the promise unsettled, the settling that follows does not
  touch \<open>pendingFetch\<close>, and a promise whose callback has run, settled or not, is not
  bound to its key.
\<close>

theorem pendingFetch_dedup:
  "let s = run es init in
     (\<forall>p q pr qr ph qh.
        promises s p = Some (pr, ph) \<and> probing ph \<and> promises s q = Some (qr, qh) \<and> probing qh
          \<and> p_src pr = p_src qr \<and> p_isChannel pr = p_isChannel qr \<longrightarrow> p = q)
   \<and> (\<forall>src isChannel p ab. pendingFetch s (cacheKey src isChannel) = Some p \<longrightarrow>
        snd (findTwitchPoster src isChannel ab s) = s
        \<and> (posterCache s (cacheKey src isChannel) = None \<longrightarrow>
             fst (findTwitchPoster src isChannel ab s) = Pending p)
        \<and> (\<forall>u. posterCache s (cacheKey src isChannel) = Some u \<longrightarrow>
             fst (findTwitchPoster src isChannel ab s) = Value u
             \<and> (\<exists>pr. promises s p = Some (pr, Resolved (Fulfilled u)))))
   \<and> (\<forall>k p. pendingFetch s k = Some p \<longleftrightarrow>
        (\<exists>pr ph. promises s p = Some (pr, ph) \<and> key_of pr = k \<and> registered ph))
   \<and> (\<forall>p pr r. promises s p = Some (pr, Resolved r) \<longrightarrow>
        pendingFetch (finalize p s) (key_of pr) = None
        \<and> promises (finalize p s) p = Some (pr, Finalized (on_catch r)))
   \<and> (\<forall>p. pendingFetch (settle p s) = pendingFetch s)
   \<and> (\<forall>p pr r. promises s p = Some (pr, Finalized r) \<or> promises s p = Some (pr, Settled r) \<longrightarrow>
        pendingFetch s (key_of pr) \<noteq> Some p)"
proof -
  define s where "s = run es init"
  have wf: "wf_state s" unfolding s_def by (rule wf_reachable)
  have fin: "pendingFetch (finalize p s) (key_of pr) = None
        \<and> promises (finalize p s) p = Some (pr, Finalized (on_catch r))"
    if "promises s p = Some (pr, Resolved r)" for p pr r
    by (simp add: finalize_Resolved [OF that])
  have stl: "pendingFetch (settle p s) = pendingFetch s" for p
    by (simp add: settle_def split: option.splits phase.splits)
  have gone: "pendingFetch s (key_of pr) \<noteq> Some p"
    if "promises s p = Some (pr, Finalized r) \<or> promises s p = Some (pr, Settled r)" for p pr r
  proof
    assume "pendingFetch s (key_of pr) = Some p"
    from wfD_pending [OF wf this] that show False by auto
  qed
  have one: "p = q"
    if "promises s p = Some (pr, ph)" "probing ph" "promises s q = Some (qr, qh)" "probing qh"
      "p_src pr = p_src qr" "p_isChannel pr = p_isChannel qr" for p q pr qr ph qh
  proof -
    from that(2,4) have "registered ph" "registered qh" by (cases ph; cases qh; simp)+
    moreover from that(5,6) have "key_of pr = key_of qr" by (simp add: key_of_def)
    ultimately show ?thesis using wf_unsettled_unique [OF wf that(1) _ that(3)] by blast
  qed
  have call: "snd (findTwitchPoster src ch ab s) = s
        \<and> (posterCache s (cacheKey src ch) = None \<longrightarrow> fst (findTwitchPoster src ch ab s) = Pending p)
        \<and> (\<forall>u. posterCache s (cacheKey src ch) = Some u \<longrightarrow>
             fst (findTwitchPoster src ch ab s) = Value u
             \<and> (\<exists>pr. promises s p = Some (pr, Resolved (Fulfilled u))))"
    if pend: "pendingFetch s (cacheKey src ch) = Some p" for src ch p ab
  proof (cases "posterCache s (cacheKey src ch)")
    case None
    with pend show ?thesis by (simp add: call_pending)
  next
    case (Some u)
    from wfD_pending [OF wf pend] obtain pr ph
      where p: "promises s p = Some (pr, ph)" "key_of pr = cacheKey src ch" "registered ph"
      by blast
    from wfD_uncached [OF wf p(1)] Some p(2)
    have ph: "\<not> probing ph" "ph \<noteq> Resolved (Fulfilled [])" by auto
    from wfD_fulfilled [OF wf p(1)] have "ph \<noteq> Resolved Rejected" by simp
    with ph p(3) obtain v where v: "ph = Resolved (Fulfilled v)" "v \<noteq> []"
      by (cases ph; simp) (metis settlement.exhaust)
    from wfD_cached [OF wf p(1) v(2) disjI1 [OF v(1)]] Some p(2) have "v = u" by simp
    with p(1) v(1) Some show ?thesis by (auto simp: call_cached)
  qed
  have iff: "pendingFetch s k = Some p \<longleftrightarrow>
        (\<exists>pr ph. promises s p = Some (pr, ph) \<and> key_of pr = k \<and> registered ph)" for k p
    using wfD_pending [OF wf, of k p] wfD_unsettled [OF wf, of p] by blast
  from one call iff fin stl gone show ?thesis
    unfolding s_def [symmetric] Let_def by (intro conjI) blast+
qed

text \<open>
  C4 as stated fails in two places. Between \<open>resolve(url)\<close> and the \<open>.finally\<close> callback the
  key is still in \<open>pendingFetch\<close>, and a call returns the cached URL, because the body looks
  at \<open>posterCache\<close> first. And once the callback has run the key is gone while the promise
  is not settled yet: after a failed run a call then starts a new probe sequence.
\<close>

theorem pendingFetch_dedup_counterexample:
  "pendingFetch (run [Call ''a'' True 0, Respond 0 (Response 200)] init) (cacheKey ''a'' True) = Some 0
   \<and> fst (findTwitchPoster ''a'' True 0 (run [Call ''a'' True 0, Respond 0 (Response 200)] init))
       \<noteq> Pending 0
   \<and> pendingFetch (run [Call ''b'' False 0, Respond 0 NetworkError, Finalize 0] init)
        (cacheKey ''b'' False) = None
   \<and> promises (run [Call ''b'' False 0, Respond 0 NetworkError, Finalize 0] init) 0
       = Some (\<lparr>p_src = ''b'', p_isChannel = False, p_abort = 0\<rparr>, Finalized (Fulfilled []))
   \<and> \<not> settled (Finalized (Fulfilled []))
   \<and> fst (findTwitchPoster ''b'' False 1
        (run [Call ''b'' False 0, Respond 0 NetworkError, Finalize 0] init)) = Pending 1"
  by (simp add: poster_eval)


text \<open>
  A call while the first probe is awaited, a call after the probe has succeeded and
  before the chain has run, and the key gone once the callback has run.
\<close>

theorem pendingFetch_dedup_witness:
  "pendingFetch (run [Call ''a'' True 0] init) (cacheKey ''a'' True) = Some 0
   \<and> posterCache (run [Call ''a'' True 0] init) (cacheKey ''a'' True) = None
   \<and> promises (run [Call ''a'' True 0] init) 0
       = Some (\<lparr>p_src = ''a'', p_isChannel = True, p_abort = 0\<rparr>,
           Probing (1920, 1080) [(1280, 720), (640, 360)])
   \<and> findTwitchPoster ''a'' True 1 (run [Call ''a'' True 0] init)
       = (Pending 0, run [Call ''a'' True 0] init)
   \<and> pendingFetch (run [Call ''a'' True 0, Respond 0 (Response 200)] init) (cacheKey ''a'' True) = Some 0
   \<and> posterCache (run [Call ''a'' True 0, Respond 0 (Response 200)] init) (cacheKey ''a'' True)
       = Some ''https://static-cdn.jtvnw.net/previews-ttv/live_user_a-1920x1080.jpg''
   \<and> findTwitchPoster ''a'' True 1 (run [Call ''a'' True 0, Respond 0 (Response 200)] init)
       = (Value ''https://static-cdn.jtvnw.net/previews-ttv/live_user_a-1920x1080.jpg'',
          run [Call ''a'' True 0, Respond 0 (Response 200)] init)
   \<and> pendingFetch (run [Call ''a'' True 0, Respond 0 (Response 200), Finalize 0] init)
        (cacheKey ''a'' True) = None"
proof -
  let ?s1 = "run [Call ''a'' True 0] init"
  let ?s2 = "run [Call ''a'' True 0, Respond 0 (Response 200)] init"
  let ?u = "''https://static-cdn.jtvnw.net/previews-ttv/live_user_a-1920x1080.jpg''"
  have pend1: "pendingFetch ?s1 (cacheKey ''a'' True) = Some 0"
    and cache1: "posterCache ?s1 (cacheKey ''a'' True) = None"
    and prom1: "promises ?s1 0 = Some (\<lparr>p_src = ''a'', p_isChannel = True, p_abort = 0\<rparr>,
           Probing (1920, 1080) [(1280, 720), (640, 360)])"
    and pend2: "pendingFetch ?s2 (cacheKey ''a'' True) = Some 0"
    and cache2: "posterCache ?s2 (cacheKey ''a'' True) = Some ?u"
    and pend3: "pendingFetch (run [Call ''a'' True 0, Respond 0 (Response 200), Finalize 0] init)
        (cacheKey ''a'' True) = None"
    by (simp_all add: poster_eval)
  note d1 = pendingFetch_dedup [of "[Call ''a'' True 0]", unfolded Let_def,
      THEN conjunct2, THEN conjunct1, rule_format, OF pend1, of 1]
  note d2 = pendingFetch_dedup [of "[Call ''a'' True 0, Respond 0 (Response 200)]",
      unfolded Let_def, THEN conjunct2, THEN conjunct1, rule_format, OF pend2, of 1]
  from d1 cache1 have call1: "findTwitchPoster ''a'' True 1 ?s1 = (Pending 0, ?s1)"
    by (simp add: prod_eq_iff)
  from d2 cache2 have call2: "findTwitchPoster ''a'' True 1 ?s2 = (Value ?u, ?s2)"
    by (simp add: prod_eq_iff)
  from pend1 cache1 prom1 call1 pend2 cache2 call2 pend3 show ?thesis by blast
qed

subsection \<open>What the cache holds\<close>






subsection \<open>One probe sequence\<close>

lemma responses_Cons: "responses p (out # outs) s = responses p outs (respond p out s)"
  by (simp add: responses_def run_def)

lemma responses_Nil: "responses p [] s = s"
  by (simp add: responses_def run_def)

lemma short_list_cases:
  assumes "length xs < 3"
  obtains "xs = []" | a where "xs = [a]" | a b where "xs = [a, b]"
proof (cases xs)
  case Nil
  then show ?thesis using that by simp
next
  case (Cons a ys)
  show ?thesis
  proof (cases ys)
    case Nil
    with Cons show ?thesis using that by simp
  next
    case (Cons b zs)
    with \<open>xs = a # ys\<close> assms have "zs = []" by simp
    with Cons \<open>xs = a # ys\<close> show ?thesis using that by simp
  qed
qed

lemma responses_append: "responses p (xs @ ys) s = responses p ys (responses p xs s)"
  by (simp add: responses_def run_def)

lemma probe_urls:
  "map (probe_url \<lparr>p_src = src, p_isChannel = ch, p_abort = ab\<rparr>)
     [(1920, 1080), (1280, 720), (640, 360)] =
   (if ch
    then [''https://static-cdn.jtvnw.net/previews-ttv/live_user_'' @ src @ ''-1920x1080.jpg'',
          ''https://static-cdn.jtvnw.net/previews-ttv/live_user_'' @ src @ ''-1280x720.jpg'',
          ''https://static-cdn.jtvnw.net/previews-ttv/live_user_'' @ src @ ''-640x360.jpg'']
    else [''https://static-cdn.jtvnw.net/cf_vods/'' @ src @ ''/thumb/thumb0-1920x1080.jpg'',
          ''https://static-cdn.jtvnw.net/cf_vods/'' @ src @ ''/thumb/thumb0-1280x720.jpg'',
          ''https://static-cdn.jtvnw.net/cf_vods/'' @ src @ ''/thumb/thumb0-640x360.jpg''])"
  by (simp add: probe_url_def dec_sizes)

text \<open>A run of failing statuses walks down the size list, one \<open>fetch\<close> for each failure.\<close>

lemma responses_fail:
  assumes "promises t p = Some (pr, Probing sz rest)"
    and "list_all (\<lambda>status. \<not> status < 400) fails"
    and "length fails \<le> length rest"
  shows "fetched (responses p (map Response fails) t)
           = fetched t @ map (\<lambda>z. (probe_url pr z, p_abort pr)) (take (length fails) rest)
       \<and> posterCache (responses p (map Response fails) t) = posterCache t
       \<and> pendingFetch (responses p (map Response fails) t) = pendingFetch t
       \<and> promises (responses p (map Response fails) t)
           = (promises t)(p \<mapsto>
               (pr, Probing ((sz # rest) ! length fails) (drop (length fails) rest)))"
  using assms
proof (induction fails arbitrary: t sz rest)
  case Nil
  then show ?case by (auto simp: responses_Nil)
next
  case (Cons a fails)
  from Cons.prems(2) have a: "\<not> a < 400" and fails: "list_all (\<lambda>status. \<not> status < 400) fails"
    by simp_all
  from Cons.prems(3) obtain sz' rest' where rest: "rest = sz' # rest'"
    by (cases rest) auto
  let ?t = "respond p (Response a) t"
  have t': "?t = t\<lparr>promises := (promises t)(p \<mapsto> (pr, Probing sz' rest')),
      fetched := fetched t @ [(probe_url pr sz', p_abort pr)],
      replies := replies t @ [(probe_url pr sz, Response a)]\<rparr>"
    using Cons.prems(1) a unfolding rest by (rule respond_next)
  then have p': "promises ?t p = Some (pr, Probing sz' rest')" by simp
  from Cons.prems(3) rest have len: "length fails \<le> length rest'" by simp
  let ?r = "responses p (map Response fails) ?t"
  from Cons.IH [OF p' fails len]
  have i1: "fetched ?r
      = fetched ?t @ map (\<lambda>z. (probe_url pr z, p_abort pr)) (take (length fails) rest')"
    and i2: "posterCache ?r = posterCache ?t"
    and i3: "pendingFetch ?r = pendingFetch ?t"
    and i4: "promises ?r
      = (promises ?t)(p \<mapsto>
          (pr, Probing ((sz' # rest') ! length fails) (drop (length fails) rest')))"
    by blast+
  have r: "responses p (map Response (a # fails)) t = ?r"
    by (simp add: responses_Cons)
  have "fetched ?r
      = fetched t @ map (\<lambda>z. (probe_url pr z, p_abort pr)) (take (length (a # fails)) rest)"
    using i1 by (simp add: t' rest)
  moreover have "posterCache ?r = posterCache t"
    using i2 by (simp add: t')
  moreover have "pendingFetch ?r = pendingFetch t"
    using i3 by (simp add: t')
  moreover have "promises ?r
      = (promises t)(p \<mapsto>
          (pr, Probing ((sz # rest) ! length (a # fails)) (drop (length (a # fails)) rest)))"
    using i4 by (simp add: t' rest)
  ultimately show ?case unfolding r by (intro conjI)
qed

lemma responses_all_fail:
  assumes p: "promises t p = Some (pr, Probing sz rest)"
    and fails: "list_all (\<lambda>status. \<not> status < 400) fails"
    and len: "length fails = Suc (length rest)"
  shows "fetched (responses p (map Response fails) t)
           = fetched t @ map (\<lambda>z. (probe_url pr z, p_abort pr)) rest
       \<and> posterCache (responses p (map Response fails) t) = posterCache t
       \<and> pendingFetch (responses p (map Response fails) t) = pendingFetch t
       \<and> promises (responses p (map Response fails) t)
           = (promises t)(p \<mapsto> (pr, Resolved (Fulfilled [])))"
proof -
  from len obtain fs a where fs: "fails = fs @ [a]" "length fs = length rest"
    by (cases fails rule: rev_cases) auto
  with fails have a: "\<not> a < 400" and fs_fail: "list_all (\<lambda>status. \<not> status < 400) fs"
    by simp_all
  let ?t = "responses p (map Response fs) t"
  from fs(2) have "length fs \<le> length rest" by simp
  note f = responses_fail [OF p fs_fail this]
  then have "promises ?t p = Some (pr, Probing ((sz # rest) ! length rest) [])"
    by (simp add: fs(2))
  from respond_last [OF this a] f show ?thesis
    by (simp add: fs responses_append responses_Cons responses_Nil)
qed

text \<open>The same run, ended by a status below 400.\<close>

lemma responses_success:
  assumes p: "promises t p = Some (pr, Probing sz rest)"
    and fails: "list_all (\<lambda>status. \<not> status < 400) fails"
    and len: "length fails \<le> length rest"
    and ok: "ok < 400"
  shows "fetched (responses p (map Response fails @ [Response ok]) t)
           = fetched t @ map (\<lambda>z. (probe_url pr z, p_abort pr)) (take (length fails) rest)
       \<and> posterCache (responses p (map Response fails @ [Response ok]) t)
           = (posterCache t)(key_of pr \<mapsto> probe_url pr ((sz # rest) ! length fails))
       \<and> pendingFetch (responses p (map Response fails @ [Response ok]) t) = pendingFetch t
       \<and> promises (responses p (map Response fails @ [Response ok]) t)
           = (promises t)(p \<mapsto> (pr, Resolved (Fulfilled (probe_url pr ((sz # rest) ! length fails)))))"
proof -
  let ?t = "responses p (map Response fails) t"
  note f = responses_fail [OF p fails len]
  then have "promises ?t p
      = Some (pr, Probing ((sz # rest) ! length fails) (drop (length fails) rest))"
    by simp
  from respond_success [OF this ok] f len show ?thesis
    by (simp add: responses_append responses_Cons responses_Nil)
qed

lemma call_new_fields:
  assumes "posterCache s (cacheKey src ch) = None" and "pendingFetch s (cacheKey src ch) = None"
  shows "fst (findTwitchPoster src ch ab s) = Pending (nextId s)"
    and "promises (snd (findTwitchPoster src ch ab s)) (nextId s)
       = Some (\<lparr>p_src = src, p_isChannel = ch, p_abort = ab\<rparr>,
           Probing (1920, 1080) [(1280, 720), (640, 360)])"
    and "fetched (snd (findTwitchPoster src ch ab s))
       = fetched s @ [(probe_url \<lparr>p_src = src, p_isChannel = ch, p_abort = ab\<rparr> (1920, 1080), ab)]"
    and "posterCache (snd (findTwitchPoster src ch ab s)) = posterCache s"
  by (simp_all add: call_new [OF assms])

lemma finalize_promise:
  "promises s p = Some (pr, Resolved (Fulfilled v)) \<Longrightarrow>
     promises (settle p (finalize p s)) p = Some (pr, Settled (Fulfilled v))"
  by (simp add: finalize_Resolved settle_def)

text \<open>
  C1. In any state, a status below 400 for the probe a promise awaits stores that probe's
  URL and resolves the promise with it, without another \<open>fetch\<close>, then or at any later
  outcome. A call for a key that is neither cached nor pending returns a new promise. When
  the first \<open>n < 3\<close> fetches are answered with statuses of 400 or more and the next with a
  status below 400, the fetches issued are those for the first \<open>n + 1\<close> of the sizes
  1920x1080, 1280x720, 640x360, in that order, with the channel URL format or the video
  URL format; the promise is resolved, and then settled, with the URL of size \<open>n + 1\<close>,
  which is cached; and no later outcome makes the promise issue another \<open>fetch\<close>.
\<close>

theorem findTwitchPoster_first_success:
  assumes "posterCache s (cacheKey src isChannel) = None"
    and "pendingFetch s (cacheKey src isChannel) = None"
    and "length fails < 3"
    and "list_all (\<lambda>status. \<not> status < 400) fails"
    and "ok < 400"
  shows "(\<forall>t q qr sz rest status.
            promises t q = Some (qr, Probing sz rest) \<and> status < 400 \<longrightarrow>
            fetched (respond q (Response status) t) = fetched t
            \<and> posterCache (respond q (Response status) t)
                = (posterCache t)(cacheKey (p_src qr) (p_isChannel qr) \<mapsto> probe_url qr sz)
            \<and> promises (respond q (Response status) t) q
                = Some (qr, Resolved (Fulfilled (probe_url qr sz)))
            \<and> (\<forall>out. respond q out (respond q (Response status) t)
                = respond q (Response status) t))
       \<and> (let urls =
           (if isChannel
            then [''https://static-cdn.jtvnw.net/previews-ttv/live_user_'' @ src @ ''-1920x1080.jpg'',
                  ''https://static-cdn.jtvnw.net/previews-ttv/live_user_'' @ src @ ''-1280x720.jpg'',
                  ''https://static-cdn.jtvnw.net/previews-ttv/live_user_'' @ src @ ''-640x360.jpg'']
            else [''https://static-cdn.jtvnw.net/cf_vods/'' @ src @ ''/thumb/thumb0-1920x1080.jpg'',
                  ''https://static-cdn.jtvnw.net/cf_vods/'' @ src @ ''/thumb/thumb0-1280x720.jpg'',
                  ''https://static-cdn.jtvnw.net/cf_vods/'' @ src @ ''/thumb/thumb0-640x360.jpg'']);
           pr = \<lparr>p_src = src, p_isChannel = isChannel, p_abort = ab\<rparr>;
           p = nextId s;
           s1 = snd (findTwitchPoster src isChannel ab s);
           s2 = responses p (map Response fails @ [Response ok]) s1
         in fst (findTwitchPoster src isChannel ab s) = Pending p
          \<and> fetched s2 = fetched s @ map (\<lambda>url. (url, ab)) (take (Suc (length fails)) urls)
          \<and> promises s2 p = Some (pr, Resolved (Fulfilled (urls ! length fails)))
          \<and> posterCache s2 = (posterCache s)(cacheKey src isChannel \<mapsto> urls ! length fails)
          \<and> (\<forall>out. respond p out s2 = s2)
          \<and> promises (settle p (finalize p s2)) p
              = Some (pr, Settled (Fulfilled (urls ! length fails))))"
proof -
  have step: "fetched (respond q (Response status) t) = fetched t
            \<and> posterCache (respond q (Response status) t)
                = (posterCache t)(cacheKey (p_src qr) (p_isChannel qr) \<mapsto> probe_url qr sz)
            \<and> promises (respond q (Response status) t) q
                = Some (qr, Resolved (Fulfilled (probe_url qr sz)))
            \<and> (\<forall>out. respond q out (respond q (Response status) t)
                = respond q (Response status) t)"
    if q: "promises t q = Some (qr, Probing sz rest)" and ok: "status < 400"
    for t q qr sz rest status
  proof -
    note r = respond_success [OF q ok]
    have "promises (respond q (Response status) t) q
        = Some (qr, Resolved (Fulfilled (probe_url qr sz)))"
      by (simp add: r)
    then have "respond q out (respond q (Response status) t) = respond q (Response status) t"
      for out
      by (simp add: respond_idle)
    then show ?thesis by (simp add: r key_of_def)
  qed
  define pr where "pr = \<lparr>p_src = src, p_isChannel = isChannel, p_abort = ab\<rparr>"
  define sizes :: "(nat \<times> nat) list" where "sizes = [(1920, 1080), (1280, 720), (640, 360)]"
  define urls where "urls = map (probe_url pr) sizes"
  define s1 where "s1 = snd (findTwitchPoster src isChannel ab s)"
  define s2 where "s2 = responses (nextId s) (map Response fails @ [Response ok]) s1"
  note call = call_new_fields [OF assms(1,2), of ab, folded pr_def s1_def]
  from assms(3) have len: "length fails \<le> length [(1280, 720), (640, 360) :: nat \<times> nat]"
    by simp
  note r = responses_success [OF call(2) assms(4) len assms(5), folded s2_def]
  have key: "key_of pr = cacheKey src isChannel" and ab: "p_abort pr = ab"
    by (simp_all add: key_of_def pr_def)
  from assms(3) have "length fails < length sizes" by (simp add: sizes_def)
  then have nth: "probe_url pr (sizes ! length fails) = urls ! length fails"
    unfolding urls_def by (rule nth_map [symmetric])
  have "map (\<lambda>z. (probe_url pr z, ab)) (take (Suc (length fails)) sizes)
      = map (\<lambda>url. (url, ab)) (take (Suc (length fails)) urls)"
    by (simp add: urls_def take_map comp_def)
  then have fetched: "fetched s2 = fetched s @ map (\<lambda>url. (url, ab)) (take (Suc (length fails)) urls)"
    using r call(3) by (simp add: ab sizes_def)
  have prom: "promises s2 (nextId s) = Some (pr, Resolved (Fulfilled (urls ! length fails)))"
    using r nth by (simp add: sizes_def)
  have cache: "posterCache s2 = (posterCache s)(cacheKey src isChannel \<mapsto> urls ! length fails)"
    using r nth call(4) by (simp add: sizes_def key)
  have idle: "respond (nextId s) out s2 = s2" for out
    using prom by (simp add: respond_idle)
  note fin = finalize_promise [OF prom]
  have U: "(if isChannel
            then [''https://static-cdn.jtvnw.net/previews-ttv/live_user_'' @ src @ ''-1920x1080.jpg'',
                  ''https://static-cdn.jtvnw.net/previews-ttv/live_user_'' @ src @ ''-1280x720.jpg'',
                  ''https://static-cdn.jtvnw.net/previews-ttv/live_user_'' @ src @ ''-640x360.jpg'']
            else [''https://static-cdn.jtvnw.net/cf_vods/'' @ src @ ''/thumb/thumb0-1920x1080.jpg'',
                  ''https://static-cdn.jtvnw.net/cf_vods/'' @ src @ ''/thumb/thumb0-1280x720.jpg'',
                  ''https://static-cdn.jtvnw.net/cf_vods/'' @ src @ ''/thumb/thumb0-640x360.jpg''])
        = urls"
    unfolding urls_def sizes_def pr_def by (rule probe_urls [symmetric])
  show ?thesis
    unfolding Let_def U pr_def [symmetric] s1_def [symmetric] s2_def [symmetric]
    using call(1) fetched prom cache idle fin step by (intro conjI allI) blast+
qed


text \<open>A channel whose 1920x1080 preview is missing and whose 1280x720 preview exists.\<close>

theorem findTwitchPoster_first_success_witness:
  "posterCache init (cacheKey ''a'' True) = None
   \<and> pendingFetch init (cacheKey ''a'' True) = None
   \<and> length [404 :: nat] < 3
   \<and> list_all (\<lambda>status. \<not> status < 400) [404 :: nat]
   \<and> (200 :: nat) < 400
   \<and> fst (findTwitchPoster ''a'' True 0 init) = Pending 0
   \<and> fetched (responses 0 [Response 404, Response 200] (snd (findTwitchPoster ''a'' True 0 init)))
       = [(''https://static-cdn.jtvnw.net/previews-ttv/live_user_a-1920x1080.jpg'', 0),
          (''https://static-cdn.jtvnw.net/previews-ttv/live_user_a-1280x720.jpg'', 0)]
   \<and> promises (responses 0 [Response 404, Response 200] (snd (findTwitchPoster ''a'' True 0 init))) 0
       = Some (\<lparr>p_src = ''a'', p_isChannel = True, p_abort = 0\<rparr>,
           Resolved (Fulfilled ''https://static-cdn.jtvnw.net/previews-ttv/live_user_a-1280x720.jpg''))"
proof -
  have h: "posterCache init (cacheKey ''a'' True) = None"
    "pendingFetch init (cacheKey ''a'' True) = None"
    "length [404 :: nat] < 3"
    "list_all (\<lambda>status. \<not> status < 400) [404 :: nat]"
    "(200 :: nat) < 400"
    by (simp_all add: init_def)
  have i: "nextId init = 0" "fetched init = []"
    by (simp_all add: init_def)
  from findTwitchPoster_first_success [OF h, of 0, unfolded Let_def, THEN conjunct2] h
  show ?thesis by (simp add: i)
qed

text \<open>
  C2. In any state, a status of 400 or more for a probe with sizes left issues the
  \<open>fetch\<close> for the next size. After a call for a key neither cached nor pending, \<open>k\<close>
  failing statuses leave the fetches for the first \<open>k + 1\<close> sizes issued and the promise
  awaiting the last of them, for \<open>k < 3\<close>; after three failing statuses all three URLs
  have been fetched, nothing is cached, and the promise is resolved, and then settled,
  with the empty string: it is fulfilled, not rejected.
\<close>

theorem findTwitchPoster_all_fail:
  assumes "posterCache s (cacheKey src isChannel) = None"
    and "pendingFetch s (cacheKey src isChannel) = None"
    and "list_all (\<lambda>status. \<not> status < 400) fails"
    and "length fails \<le> 3"
  shows "(\<forall>t q qr sz sz' rest status.
            promises t q = Some (qr, Probing sz (sz' # rest)) \<and> \<not> status < 400 \<longrightarrow>
            fetched (respond q (Response status) t) = fetched t @ [(probe_url qr sz', p_abort qr)]
            \<and> promises (respond q (Response status) t) q = Some (qr, Probing sz' rest))
       \<and> (let urls =
           (if isChannel
            then [''https://static-cdn.jtvnw.net/previews-ttv/live_user_'' @ src @ ''-1920x1080.jpg'',
                  ''https://static-cdn.jtvnw.net/previews-ttv/live_user_'' @ src @ ''-1280x720.jpg'',
                  ''https://static-cdn.jtvnw.net/previews-ttv/live_user_'' @ src @ ''-640x360.jpg'']
            else [''https://static-cdn.jtvnw.net/cf_vods/'' @ src @ ''/thumb/thumb0-1920x1080.jpg'',
                  ''https://static-cdn.jtvnw.net/cf_vods/'' @ src @ ''/thumb/thumb0-1280x720.jpg'',
                  ''https://static-cdn.jtvnw.net/cf_vods/'' @ src @ ''/thumb/thumb0-640x360.jpg'']);
           pr = \<lparr>p_src = src, p_isChannel = isChannel, p_abort = ab\<rparr>;
           p = nextId s;
           s1 = snd (findTwitchPoster src isChannel ab s);
           s2 = responses p (map Response fails) s1
         in fst (findTwitchPoster src isChannel ab s) = Pending p
          \<and> fetched s2 = fetched s @ map (\<lambda>url. (url, ab)) (take (Suc (length fails)) urls)
          \<and> posterCache s2 = posterCache s
          \<and> (length fails < 3 \<longrightarrow>
               promises s2 p
                 = Some (pr, Probing ([(1920, 1080), (1280, 720), (640, 360)] ! length fails)
                     (drop (Suc (length fails)) [(1920, 1080), (1280, 720), (640, 360)])))
          \<and> (length fails = 3 \<longrightarrow>
               promises s2 p = Some (pr, Resolved (Fulfilled []))
               \<and> promises (settle p (finalize p s2)) p = Some (pr, Settled (Fulfilled []))))"
proof -
  have step: "fetched (respond q (Response status) t) = fetched t @ [(probe_url qr sz', p_abort qr)]
            \<and> promises (respond q (Response status) t) q = Some (qr, Probing sz' rest)"
    if "promises t q = Some (qr, Probing sz (sz' # rest))" "\<not> status < 400"
    for t q qr sz sz' rest status
    by (simp add: respond_next [OF that])
  define pr where "pr = \<lparr>p_src = src, p_isChannel = isChannel, p_abort = ab\<rparr>"
  define sizes :: "(nat \<times> nat) list" where "sizes = [(1920, 1080), (1280, 720), (640, 360)]"
  define urls where "urls = map (probe_url pr) sizes"
  define s1 where "s1 = snd (findTwitchPoster src isChannel ab s)"
  define s2 where "s2 = responses (nextId s) (map Response fails) s1"
  note call = call_new_fields [OF assms(1,2), of ab, folded pr_def s1_def]
  have ab: "p_abort pr = ab" by (simp add: pr_def)
  have tk: "map (\<lambda>z. (probe_url pr z, ab)) (take n sizes) = map (\<lambda>url. (url, ab)) (take n urls)" for n
    by (simp add: urls_def take_map comp_def)
  have U: "(if isChannel
            then [''https://static-cdn.jtvnw.net/previews-ttv/live_user_'' @ src @ ''-1920x1080.jpg'',
                  ''https://static-cdn.jtvnw.net/previews-ttv/live_user_'' @ src @ ''-1280x720.jpg'',
                  ''https://static-cdn.jtvnw.net/previews-ttv/live_user_'' @ src @ ''-640x360.jpg'']
            else [''https://static-cdn.jtvnw.net/cf_vods/'' @ src @ ''/thumb/thumb0-1920x1080.jpg'',
                  ''https://static-cdn.jtvnw.net/cf_vods/'' @ src @ ''/thumb/thumb0-1280x720.jpg'',
                  ''https://static-cdn.jtvnw.net/cf_vods/'' @ src @ ''/thumb/thumb0-640x360.jpg''])
        = urls"
    unfolding urls_def sizes_def pr_def by (rule probe_urls [symmetric])
  have "fetched s2 = fetched s @ map (\<lambda>url. (url, ab)) (take (Suc (length fails)) urls)
      \<and> posterCache s2 = posterCache s
      \<and> (length fails < 3 \<longrightarrow>
           promises s2 (nextId s)
             = Some (pr, Probing (sizes ! length fails) (drop (Suc (length fails)) sizes)))
      \<and> (length fails = 3 \<longrightarrow>
           promises s2 (nextId s) = Some (pr, Resolved (Fulfilled []))
           \<and> promises (settle (nextId s) (finalize (nextId s) s2)) (nextId s)
               = Some (pr, Settled (Fulfilled [])))"
  proof (cases "length fails < 3")
    case True
    then have len: "length fails \<le> length [(1280, 720), (640, 360) :: nat \<times> nat]"
      by simp
    note r = responses_fail [OF call(2) assms(3) len, folded s2_def]
    have "fetched s2 = fetched s @ map (\<lambda>z. (probe_url pr z, ab)) (take (Suc (length fails)) sizes)"
      using r call(3) by (simp add: ab sizes_def)
    moreover have "posterCache s2 = posterCache s"
      using r call(4) by simp
    moreover have "promises s2 (nextId s)
        = Some (pr, Probing (sizes ! length fails) (drop (Suc (length fails)) sizes))"
      using r by (simp add: sizes_def)
    ultimately show ?thesis using True by (simp add: tk)
  next
    case False
    with assms(4) have three: "length fails = 3" by simp
    then have len: "length fails = Suc (length [(1280, 720), (640, 360) :: nat \<times> nat])"
      by simp
    note r = responses_all_fail [OF call(2) assms(3) len, folded s2_def]
    have "fetched s2 = fetched s @ map (\<lambda>z. (probe_url pr z, ab)) (take (Suc (length fails)) sizes)"
      using r call(3) by (simp add: ab sizes_def three)
    moreover have "posterCache s2 = posterCache s"
      using r call(4) by simp
    moreover have prom: "promises s2 (nextId s) = Some (pr, Resolved (Fulfilled []))"
      using r by simp
    moreover note finalize_promise [OF prom]
    ultimately show ?thesis using three by (simp add: tk)
  qed
  with call(1) step show ?thesis
    unfolding Let_def U pr_def [symmetric] s1_def [symmetric] s2_def [symmetric]
      sizes_def [symmetric]
    by (intro conjI) blast+
qed

text \<open>A video whose three thumbnails are all missing, and the state after its first failure.\<close>

theorem findTwitchPoster_all_fail_witness:
  "posterCache init (cacheKey ''7'' False) = None
   \<and> pendingFetch init (cacheKey ''7'' False) = None
   \<and> list_all (\<lambda>status. \<not> status < 400) [404, 500, 400 :: nat]
   \<and> length [404, 500, 400 :: nat] \<le> 3
   \<and> fetched (responses 0 [Response 404, Response 500, Response 400]
        (snd (findTwitchPoster ''7'' False 0 init)))
       = [(''https://static-cdn.jtvnw.net/cf_vods/7/thumb/thumb0-1920x1080.jpg'', 0),
          (''https://static-cdn.jtvnw.net/cf_vods/7/thumb/thumb0-1280x720.jpg'', 0),
          (''https://static-cdn.jtvnw.net/cf_vods/7/thumb/thumb0-640x360.jpg'', 0)]
   \<and> promises (settle 0 (finalize 0 (responses 0 [Response 404, Response 500, Response 400]
        (snd (findTwitchPoster ''7'' False 0 init))))) 0
       = Some (\<lparr>p_src = ''7'', p_isChannel = False, p_abort = 0\<rparr>, Settled (Fulfilled []))
   \<and> list_all (\<lambda>status. \<not> status < 400) [404 :: nat]
   \<and> length [404 :: nat] \<le> 3
   \<and> promises (responses 0 [Response 404] (snd (findTwitchPoster ''7'' False 0 init))) 0
       = Some (\<lparr>p_src = ''7'', p_isChannel = False, p_abort = 0\<rparr>,
           Probing (1280, 720) [(640, 360)])"
proof -
  have h: "posterCache init (cacheKey ''7'' False) = None"
    "pendingFetch init (cacheKey ''7'' False) = None"
    by (simp_all add: init_def)
  have f3: "list_all (\<lambda>status. \<not> status < 400) [404, 500, 400 :: nat]"
    "length [404, 500, 400 :: nat] \<le> 3"
    and f1: "list_all (\<lambda>status. \<not> status < 400) [404 :: nat]" "length [404 :: nat] \<le> 3"
    by simp_all
  have i: "nextId init = 0" "fetched init = []"
    by (simp_all add: init_def)
  from findTwitchPoster_all_fail [OF h f3, of 0, unfolded Let_def, THEN conjunct2]
    findTwitchPoster_all_fail [OF h f1, of 0, unfolded Let_def, THEN conjunct2] h f3 f1
  show ?thesis by (simp add: i)
qed


lemma responses_idle:
  "promises t q = Some (qr, Resolved r) \<Longrightarrow> responses q outs t = t"
  by (induction outs) (simp_all add: responses_Nil responses_Cons respond_idle)

text \<open>Every outcome either resolves the promise or leaves fewer sizes to try.\<close>

lemma respond_progress:
  assumes "promises t q = Some (qr, Probing sz rest)"
  shows "(\<exists>v. promises (respond q out t) q = Some (qr, Resolved (Fulfilled v)))
       \<or> (\<exists>sz' rest'. rest = sz' # rest'
            \<and> promises (respond q out t) q = Some (qr, Probing sz' rest'))"
proof (cases out)
  case (Response status)
  show ?thesis
  proof (cases "status < 400")
    case True
    then show ?thesis by (simp add: Response respond_success [OF assms])
  next
    case False
    show ?thesis
    proof (cases rest)
      case Nil
      with assms False show ?thesis by (simp add: Response respond_last)
    next
      case (Cons sz' rest')
      with assms False show ?thesis by (simp add: Response respond_next)
    qed
  qed
next
  case NetworkError
  then show ?thesis by (simp add: respond_error [OF assms])
next
  case AbortError
  then show ?thesis by (simp add: respond_error [OF assms])
qed

lemma responses_settle:
  assumes "promises t q = Some (qr, Probing sz rest)" and "length rest < length outs"
  shows "\<exists>v. promises (responses q outs t) q = Some (qr, Resolved (Fulfilled v))"
  using assms
proof (induction outs arbitrary: t sz rest)
  case Nil
  then show ?case by simp
next
  case (Cons out outs)
  from respond_progress [OF Cons.prems(1), of out] show ?case
  proof (elim disjE exE conjE)
    fix v
    assume r: "promises (respond q out t) q = Some (qr, Resolved (Fulfilled v))"
    then show ?thesis by (auto simp: responses_Cons responses_idle [OF r])
  next
    fix sz' rest'
    assume rest: "rest = sz' # rest'"
      and p: "promises (respond q out t) q = Some (qr, Probing sz' rest')"
    from Cons.prems(2) rest have "length rest' < length outs" by simp
    from Cons.IH [OF p this] show ?thesis by (simp add: responses_Cons)
  qed
qed

text \<open>
  C9. No promise of a reachable state is rejected. A call returns a string when the key
  is cached; for a key neither cached nor pending it returns a new promise, and whatever
  the outcomes of its fetches are, three of them are enough for the promise to be
  fulfilled with a string. The same holds for a promise in any state, given more
  outcomes than it has sizes left. A \<open>fetch\<close> that rejects, by a network error or by an
  abort, resolves the promise with the empty string at once: no further \<open>fetch\<close> is
  issued and nothing is cached.
\<close>

theorem findTwitchPoster_never_rejects:
  "(\<forall>p pr ph. promises (run es init) p = Some (pr, ph) \<longrightarrow>
      ph \<noteq> Resolved Rejected \<and> ph \<noteq> Finalized Rejected \<and> ph \<noteq> Settled Rejected)
   \<and> (\<forall>u. posterCache s (cacheKey src isChannel) = Some u \<longrightarrow>
        fst (findTwitchPoster src isChannel ab s) = Value u)
   \<and> (posterCache s (cacheKey src isChannel) = None \<and> pendingFetch s (cacheKey src isChannel) = None
        \<and> 3 \<le> length outs \<longrightarrow>
        fst (findTwitchPoster src isChannel ab s) = Pending (nextId s)
        \<and> (\<exists>v. promises
                 (settle (nextId s) (finalize (nextId s)
                   (responses (nextId s) outs (snd (findTwitchPoster src isChannel ab s)))))
                 (nextId s)
               = Some (\<lparr>p_src = src, p_isChannel = isChannel, p_abort = ab\<rparr>,
                   Settled (Fulfilled v))))
   \<and> (promises t q = Some (qr, Probing sz rest) \<and> length rest < length outs \<longrightarrow>
        (\<exists>v. promises (settle q (finalize q (responses q outs t))) q = Some (qr, Settled (Fulfilled v))))
   \<and> (promises t q = Some (qr, Probing sz rest) \<and> (out = NetworkError \<or> out = AbortError) \<longrightarrow>
        fetched (respond q out t) = fetched t
        \<and> posterCache (respond q out t) = posterCache t
        \<and> promises (respond q out t) q = Some (qr, Resolved (Fulfilled []))
        \<and> promises (settle q (finalize q (respond q out t))) q = Some (qr, Settled (Fulfilled [])))"
proof -
  have a: "ph \<noteq> Resolved Rejected \<and> ph \<noteq> Finalized Rejected \<and> ph \<noteq> Settled Rejected"
    if "promises (run es init) p = Some (pr, ph)" for p pr ph
    using wfD_fulfilled [OF wf_reachable that] .
  have b: "fst (findTwitchPoster src isChannel ab s) = Value u"
    if "posterCache s (cacheKey src isChannel) = Some u" for u
    using that by (simp add: call_cached)
  have d: "\<exists>v. promises (settle q (finalize q (responses q outs t))) q = Some (qr, Settled (Fulfilled v))"
    if "promises t q = Some (qr, Probing sz rest)" "length rest < length outs"
    for t q qr sz rest
    using responses_settle [OF that] by (auto dest: finalize_promise)
  have c: "fst (findTwitchPoster src isChannel ab s) = Pending (nextId s)
        \<and> (\<exists>v. promises
                 (settle (nextId s) (finalize (nextId s)
                   (responses (nextId s) outs (snd (findTwitchPoster src isChannel ab s)))))
                 (nextId s)
               = Some (\<lparr>p_src = src, p_isChannel = isChannel, p_abort = ab\<rparr>,
                   Settled (Fulfilled v)))"
    if "posterCache s (cacheKey src isChannel) = None"
      "pendingFetch s (cacheKey src isChannel) = None" "3 \<le> length outs"
  proof -
    note call = call_new_fields [OF that(1,2), of ab]
    from that(3) have "length [(1280, 720), (640, 360) :: nat \<times> nat] < length outs" by simp
    from d [OF call(2) this] call(1) show ?thesis by simp
  qed
  have e: "fetched (respond q out t) = fetched t
        \<and> posterCache (respond q out t) = posterCache t
        \<and> promises (respond q out t) q = Some (qr, Resolved (Fulfilled []))
        \<and> promises (settle q (finalize q (respond q out t))) q = Some (qr, Settled (Fulfilled []))"
    if p: "promises t q = Some (qr, Probing sz rest)" and out: "out = NetworkError \<or> out = AbortError"
  proof -
    note r = respond_error [OF p out]
    have "promises (respond q out t) q = Some (qr, Resolved (Fulfilled []))"
      by (simp add: r)
    from this finalize_promise [OF this] show ?thesis by (simp add: r)
  qed
  from a b c d [of t q qr sz rest] e show ?thesis by blast
qed

text \<open>
  An aborted first probe, and a sequence of a failing status, a network error and an
  outcome that is no longer awaited.
\<close>

theorem findTwitchPoster_never_rejects_witness:
  "promises (run [Call ''a'' True 0, Respond 0 AbortError, Finalize 0, Settle 0] init) 0
     = Some (\<lparr>p_src = ''a'', p_isChannel = True, p_abort = 0\<rparr>, Settled (Fulfilled []))
   \<and> Settled (Fulfilled []) \<noteq> Settled Rejected
   \<and> posterCache init (cacheKey ''a'' True) = None
   \<and> pendingFetch init (cacheKey ''a'' True) = None
   \<and> 3 \<le> length [Response 500, NetworkError, Response 200]
   \<and> (\<exists>v. promises
          (settle 0 (finalize 0 (responses 0 [Response 500, NetworkError, Response 200]
            (snd (findTwitchPoster ''a'' True 0 init))))) 0
        = Some (\<lparr>p_src = ''a'', p_isChannel = True, p_abort = 0\<rparr>, Settled (Fulfilled v)))
   \<and> promises (run [Call ''a'' True 0] init) 0
       = Some (\<lparr>p_src = ''a'', p_isChannel = True, p_abort = 0\<rparr>,
           Probing (1920, 1080) [(1280, 720), (640, 360)])
   \<and> fetched (respond 0 AbortError (run [Call ''a'' True 0] init))
       = fetched (run [Call ''a'' True 0] init)
   \<and> promises (settle 0 (finalize 0 (respond 0 AbortError (run [Call ''a'' True 0] init)))) 0
       = Some (\<lparr>p_src = ''a'', p_isChannel = True, p_abort = 0\<rparr>, Settled (Fulfilled []))"
proof -
  let ?pr = "\<lparr>p_src = ''a'', p_isChannel = True, p_abort = 0\<rparr>"
  have p1: "promises (run [Call ''a'' True 0, Respond 0 AbortError, Finalize 0, Settle 0] init) 0
     = Some (?pr, Settled (Fulfilled []))"
    and p2: "promises (run [Call ''a'' True 0] init) 0
     = Some (?pr, Probing (1920, 1080) [(1280, 720), (640, 360)])"
    by (simp_all add: poster_eval)
  have h: "posterCache init (cacheKey ''a'' True) = None"
    "pendingFetch init (cacheKey ''a'' True) = None"
    "3 \<le> length [Response 500, NetworkError, Response 200]"
    and i: "nextId init = 0"
    by (simp_all add: init_def)
  note t = findTwitchPoster_never_rejects
    [of "[Call ''a'' True 0, Respond 0 AbortError, Finalize 0, Settle 0]" init "''a''" True 0
      "[Response 500, NetworkError, Response 200]" "run [Call ''a'' True 0] init" 0 ?pr
      "(1920, 1080)" "[(1280, 720), (640, 360)]" AbortError]
  from t [THEN conjunct1, rule_format, OF p1]
  have a: "Settled (Fulfilled []) \<noteq> Settled Rejected" by simp
  from t [THEN conjunct2, THEN conjunct2, THEN conjunct1] h
  have c: "\<exists>v. promises
          (settle 0 (finalize 0 (responses 0 [Response 500, NetworkError, Response 200]
            (snd (findTwitchPoster ''a'' True 0 init))))) 0
        = Some (?pr, Settled (Fulfilled v))"
    by (simp add: i)
  from t [THEN conjunct2, THEN conjunct2, THEN conjunct2, THEN conjunct2] p2
  have e: "fetched (respond 0 AbortError (run [Call ''a'' True 0] init))
       = fetched (run [Call ''a'' True 0] init)"
    "promises (settle 0 (finalize 0 (respond 0 AbortError (run [Call ''a'' True 0] init)))) 0
       = Some (?pr, Settled (Fulfilled []))"
    by simp_all
  from p1 a h c p2 e show ?thesis by blast
qed

end
